theory Spec2Isabelle
  imports Main
begin

section \<open>Strings\<close>

text \<open>
  A Python \<open>str\<close> is a sequence of Unicode code points, and \<open>re\<close>, \<open>in\<close>,
  \<open>startswith\<close> and \<open>lstrip\<close> work on code points. A string is therefore a list of
  code points, each a natural number. ASCII literals are written through \<open>u\<close>; the
  Chinese literals of the source are written as their code points, with the
  characters named in the comment beside them.
\<close>

type_synonym ustr = "nat list"

definition u :: "string \<Rightarrow> ustr" where
  "u s = map of_char s"

text \<open>\<open>s.startswith(p)\<close>\<close>

definition startswith :: "ustr \<Rightarrow> ustr \<Rightarrow> bool" where
  "startswith s p = (take (length p) s = p)"

text \<open>\<open>s.lstrip('/')\<close>: drops every leading slash.\<close>

definition lstrip_slash :: "ustr \<Rightarrow> ustr" where
  "lstrip_slash s = dropWhile (\<lambda>c. c = 47) s"

text \<open>\<open>k in t\<close> for two strings: \<open>k\<close> occurs in \<open>t\<close> as a contiguous substring.\<close>

fun contains :: "ustr \<Rightarrow> ustr \<Rightarrow> bool" where
  "contains [] k = (k = [])"
| "contains (c # cs) k = (startswith (c # cs) k \<or> contains cs k)"

text \<open>\<open>sep.join(xs)\<close> with the separator \<open>"\n"\<close> (code point 10).\<close>

fun join_nl :: "ustr list \<Rightarrow> ustr" where
  "join_nl [] = []"
| "join_nl [x] = x"
| "join_nl (x # y # ys) = x @ [10] @ join_nl (y # ys)"

text \<open>\<open>str(n)\<close> for a non-negative integer: its decimal digits.\<close>

fun str_nat :: "nat \<Rightarrow> ustr" where
  "str_nat n = (if n < 10 then [48 + n] else str_nat (n div 10) @ [48 + n mod 10])"

declare str_nat.simps [simp del]

section \<open>Regular expressions\<close>

text \<open>
  Every pattern of the source is a sequence of single-character items (a literal, a
  class in brackets, \<open>\d\<close> or \<open>\s\<close>), each with a greedy repetition (\<open>*\<close>, \<open>+\<close>, \<open>?\<close>,
  \<open>{m}\<close>, \<open>{m,n}\<close> or none), some of them enclosed in capture groups that are not
  nested and not repeated. A pattern is the list of its items; each item carries the
  number of the group it sits in (0 for none), its class and its repetition bounds.

  Which code points \<open>\d\<close> and \<open>\s\<close> accept is a table of the Python runtime (the
  Unicode decimal digits and white space); the two predicates are parameters.
\<close>

record unicode =
  isdigit :: "nat \<Rightarrow> bool"
  isspace :: "nat \<Rightarrow> bool"

datatype cls =
    Ch nat                \<comment> \<open>one literal character\<close>
  | Digit                 \<comment> \<open>\<open>\d\<close>\<close>
  | Space                 \<comment> \<open>\<open>\s\<close>\<close>
  | OneOf "cls list"      \<comment> \<open>\<open>[...]\<close>\<close>
  | NoneOf "cls list"     \<comment> \<open>\<open>[^...]\<close>\<close>

fun accepts :: "unicode \<Rightarrow> cls \<Rightarrow> nat \<Rightarrow> bool" where
  "accepts U (Ch c) x = (x = c)"
| "accepts U Digit x = isdigit U x"
| "accepts U Space x = isspace U x"
| "accepts U (OneOf cs) x = (\<exists>c \<in> set cs. accepts U c x)"
| "accepts U (NoneOf cs) x = (\<not> (\<exists>c \<in> set cs. accepts U c x))"

datatype item = Item (grp: nat) (cl: cls) (lo: nat) (hi: "nat option")

type_synonym regex = "item list"

text \<open>The pattern syntax of the source, item by item.\<close>

definition lit :: "ustr \<Rightarrow> regex" where
  "lit s = map (\<lambda>c. Item 0 (Ch c) 1 (Some 1)) s"

definition once :: "nat \<Rightarrow> cls \<Rightarrow> regex" where
  "once g c = [Item g c 1 (Some 1)]"

definition star :: "nat \<Rightarrow> cls \<Rightarrow> regex" where
  "star g c = [Item g c 0 None]"

definition plus1 :: "nat \<Rightarrow> cls \<Rightarrow> regex" where
  "plus1 g c = [Item g c 1 None]"

definition opt :: "nat \<Rightarrow> cls \<Rightarrow> regex" where
  "opt g c = [Item g c 0 (Some 1)]"

definition rep :: "nat \<Rightarrow> cls \<Rightarrow> nat \<Rightarrow> nat \<Rightarrow> regex" where
  "rep g c m n = [Item g c m (Some n)]"

text \<open>
  The longest run an item can take at the head of the text: the characters its class
  accepts, at most \<open>hi\<close> of them.
\<close>

definition run :: "unicode \<Rightarrow> item \<Rightarrow> ustr \<Rightarrow> nat" where
  "run U a s =
     (let k = length (takeWhile (accepts U (cl a)) s)
      in case hi a of None \<Rightarrow> k | Some h \<Rightarrow> min h k)"

text \<open>
  All the ways a pattern matches at the head of the text, in the order in which the
  backtracking matcher of \<open>re\<close> finds them: a greedy item first takes its longest run
  and gives characters back one at a time, down to \<open>lo\<close>, and for each length the rest
  of the pattern is tried on the rest of the text. A way is the list of the pieces of
  text taken by the items.
\<close>

fun ways :: "unicode \<Rightarrow> regex \<Rightarrow> ustr \<Rightarrow> ustr list list" where
  "ways U [] s = [[]]"
| "ways U (a # as) s =
     concat (map (\<lambda>n. map (\<lambda>r. take n s # r) (ways U as (drop n s)))
                 (rev [lo a ..< Suc (run U a s)]))"

text \<open>\<open>re.search\<close>: the first way at the leftmost position that has one.\<close>

fun re_search :: "unicode \<Rightarrow> regex \<Rightarrow> ustr \<Rightarrow> ustr list option" where
  "re_search U p [] = (case ways U p [] of [] \<Rightarrow> None | m # _ \<Rightarrow> Some m)"
| "re_search U p (c # cs) =
     (case ways U p (c # cs) of [] \<Rightarrow> re_search U p cs | m # _ \<Rightarrow> Some m)"

text \<open>
  \<open>match.group(g)\<close>: the text between the parentheses of group \<open>g\<close>, that is the pieces
  of the items of that group; \<open>match.groups()\<close>: all the groups of the pattern.
\<close>

definition ngroups :: "regex \<Rightarrow> nat" where
  "ngroups p = fold max (map grp p) 0"

definition group :: "regex \<Rightarrow> ustr list \<Rightarrow> nat \<Rightarrow> ustr" where
  "group p m g = concat (map snd (filter (\<lambda>(a, piece). grp a = g) (zip p m)))"

definition groups :: "regex \<Rightarrow> ustr list \<Rightarrow> ustr list" where
  "groups p m = map (group p m) [1 ..< Suc (ngroups p)]"

section \<open>The world outside the program\<close>

text \<open>
  Every function of the program is modelled with the state it changes passed in and
  returned, and with a result that is either an exception (\<open>Inl\<close>) or a value
  (\<open>Inr\<close>), so that a function that cannot raise is a theorem and not a convention.
  Printing and logging are left out: they change nothing the program reads.

  The exceptions of the libraries the program calls. All of them are subclasses of
  Python's \<open>Exception\<close>, so \<open>except Exception\<close> catches each of them;
  \<open>except sqlite3.IntegrityError\<close> catches only the one. What is not an
  \<open>Exception\<close> (a keyboard interrupt, the exit of the interpreter) comes from
  outside the calls and is not modelled.
\<close>

datatype exn =
    RequestException          \<comment> \<open>\<open>requests\<close>: no connection, time-out, bad URL\<close>
  | UnidentifiedImageError    \<comment> \<open>\<open>PIL.Image.open\<close> on bytes that are no image\<close>
  | TypeError                 \<comment> \<open>iterating over \<open>None\<close>\<close>
  | IndexError                \<comment> \<open>\<open>match.group\<close> of a group the pattern lacks\<close>
  | ParserError               \<comment> \<open>\<open>BeautifulSoup\<close>\<close>
  | RuntimeError              \<comment> \<open>the recognition engine\<close>
  | IntegrityError            \<comment> \<open>\<open>sqlite3\<close>: the primary key exists\<close>
  | OperationalError          \<comment> \<open>\<open>sqlite3\<close>: locked, no disk space, no file\<close>
  | TelegramError             \<comment> \<open>\<open>telegram\<close>: delivery failed\<close>

record response =
  status_code :: int
  body :: "nat list"          \<comment> \<open>the body: \<open>response.text\<close>, \<open>response.content\<close>\<close>

text \<open>
  What \<open>BeautifulSoup\<close> finds in a listing page. An \<open>li\<close> item is what
  \<open>item.find('a')\<close> returns: nothing, or a link, of which the program reads
  \<open>find('h3')\<close> and \<open>find('em')\<close> (the stripped text of each, when the element exists)
  and the \<open>href\<close> attribute (when present).
\<close>

record anchor =
  h3 :: "ustr option"
  em :: "ustr option"
  href :: "ustr option"

type_synonym li = "anchor option"

text \<open>
  What the recognition engine returns for an image: \<open>None\<close>, or a list of lines, each
  \<open>None\<close> or the list of the texts recognised on it (\<open>word_info[1][0]\<close>).
\<close>

type_synonym ocr_result = "ustr list option list option"

text \<open>
  The commands of the subscribers. Their handlers run in the same event loop as the
  scheduled task, so a command is handled only while the task is suspended at an
  \<open>await\<close>: during a delivery, or during the sleep between two passes.
\<close>

datatype command = Subscribe int | Unsubscribe int

text \<open>
  The environment: the network, the two parsers, the recognition engine, the database
  engine's faults, the message transport and the commands of the subscribers. The
  answer of the network may change from one request to the next, so it depends on the
  number of requests made before; a fault of the database depends on the number of
  earlier calls; the commands handled during a delivery depend on the number of
  earlier deliveries, and those handled during a sleep on the time it starts.

  The subscribers are a Python \<open>set\<close>. When commands handled during a delivery have
  changed the set and left its size as it was, the iterator of the loop in
  \<open>send_message\<close> goes on, and which subscribers it still yields depends on the layout
  of the hash table: that is a parameter too (\<open>resumed\<close>), as is the number of times
  one loop can be resumed so (\<open>resumptions\<close>), an iterator yielding finitely many
  elements.
\<close>

record env =
  uni :: unicode
  net :: "nat \<Rightarrow> ustr \<Rightarrow> exn + response"
      \<comment> \<open>\<open>requests.get(url)\<close>: raises, or answers\<close>
  soup_img_src :: "nat list \<Rightarrow> exn + ustr option list"
      \<comment> \<open>\<open>BeautifulSoup(body).find_all('img')\<close>: the \<open>src\<close> attribute of each image\<close>
  soup_list_news :: "nat list \<Rightarrow> exn + li list option"
      \<comment> \<open>\<open>BeautifulSoup(body).find('ul', class_='list_news')\<close>, and its \<open>find_all('li')\<close>\<close>
  image_open :: "nat list \<Rightarrow> exn + nat list"
      \<comment> \<open>\<open>numpy.array(Image.open(BytesIO(body)))\<close>\<close>
  ocr :: "nat list \<Rightarrow> exn + ocr_result"
      \<comment> \<open>\<open>self.ocr.ocr(image, cls=True)\<close>\<close>
  sqlite_fault :: "nat \<Rightarrow> exn option"
      \<comment> \<open>an error of \<open>sqlite3\<close> other than the duplicate key\<close>
  bot_send :: "int \<Rightarrow> ustr \<Rightarrow> exn option"
      \<comment> \<open>\<open>application.bot.send_message(chat_id, text)\<close>: raises, or delivers\<close>
  during_delivery :: "nat \<Rightarrow> command list"
      \<comment> \<open>the commands handled while a delivery is awaited\<close>
  resumed :: "nat \<Rightarrow> int list"
      \<comment> \<open>what the iterator still yields after commands that kept the size\<close>
  resumptions :: nat
      \<comment> \<open>how often the iterator of one loop can be resumed so\<close>
  during_sleep :: "nat \<Rightarrow> command list"
      \<comment> \<open>the commands handled during a sleep\<close>

text \<open>One row of the table \<open>competitions\<close>; \<open>id\<close> is its primary key.\<close>

record row =
  col_id :: ustr
  col_title :: ustr
  col_url :: ustr
  col_date_info :: ustr
  col_requirements :: ustr
  col_organizer :: ustr
  col_undertaker :: ustr
  col_platform :: ustr
  col_created_at :: nat

text \<open>
  The state the program changes: the requests it has made, the table (a map from the
  primary key to the row), the number of database calls, the clock (in seconds), the
  subscribers (\<open>chat_ids\<close>, in the order the set is iterated), the messages delivered
  and the number of deliveries attempted.
\<close>

record state =
  requested :: "ustr list"
  db :: "ustr \<rightharpoonup> row"
  db_calls :: nat
  now :: nat
  chat_ids :: "int list"
  outbox :: "(int \<times> ustr) list"
  deliveries :: nat

definition base_url :: ustr where
  "base_url = u ''https://www.sun-ada.net''"

definition requests_get :: "env \<Rightarrow> ustr \<Rightarrow> state \<Rightarrow> (exn + response) \<times> state" where
  "requests_get w url s =
     (net w (length (requested s)) url, s\<lparr>requested := requested s @ [url]\<rparr>)"

section \<open>\<open>AdCompetitionSpider.get_text_from_image\<close>\<close>

text \<open>
  The two nested loops over the result: iterating over a line that is \<open>None\<close> raises.
\<close>

fun text_list :: "ustr list option list \<Rightarrow> exn + ustr list" where
  "text_list [] = Inr []"
| "text_list (None # ls) = Inl TypeError"
| "text_list (Some ws # ls) =
     (case text_list ls of Inl e \<Rightarrow> Inl e | Inr ts \<Rightarrow> Inr (ws @ ts))"

text \<open>The body of the \<open>try\<close> block.\<close>

definition get_text_try :: "env \<Rightarrow> ustr \<Rightarrow> state \<Rightarrow> (exn + ustr) \<times> state" where
  "get_text_try w image_url s =
     (case requests_get w image_url s of
        (Inl e, s') \<Rightarrow> (Inl e, s')
      | (Inr response, s') \<Rightarrow>
          if status_code response \<noteq> 200 then (Inr [], s')
          else (case image_open w (body response) of
                  Inl e \<Rightarrow> (Inl e, s')
                | Inr image_array \<Rightarrow>
                    (case ocr w image_array of
                       Inl e \<Rightarrow> (Inl e, s')
                     | Inr None \<Rightarrow> (Inr (join_nl []), s')
                     | Inr (Some []) \<Rightarrow> (Inr (join_nl []), s')
                     | Inr (Some result) \<Rightarrow>
                         (case text_list result of
                            Inl e \<Rightarrow> (Inl e, s')
                          | Inr texts \<Rightarrow> (Inr (join_nl texts), s')))))"

text \<open>The function: \<open>except Exception\<close> turns every exception into the empty string.\<close>

definition get_text_from_image :: "env \<Rightarrow> ustr \<Rightarrow> state \<Rightarrow> (exn + ustr) \<times> state" where
  "get_text_from_image w image_url s =
     (case get_text_try w image_url s of
        (Inl e, s') \<Rightarrow> (Inr [], s')
      | (Inr full_text, s') \<Rightarrow> (Inr full_text, s'))"

section \<open>\<open>AdCompetitionSpider.parse_news_content\<close>\<close>

subsection \<open>The four pattern families\<close>

text \<open>
  The code points of the Chinese characters of the patterns:
  25253 21517 26085 26399 is bao-ming-ri-qi (registration date),
  25253 21517 26102 38388 is bao-ming-shi-jian (registration time),
  65306 is the full-width colon, 58 the ASCII colon,
  24180 is nian (year), 26376 is yue (month), 26085 is ri (day),
  33267 is zhi (until), 21040 is dao (to), 36215 is qi (from),
  32467 26463 is jie-shu (end), 12290 is the ideographic full stop, 10 the newline,
  21442 36187 is can-sai (take part), followed by 23545 35937 dui-xiang,
  36164 26684 zi-ge, 20154 21592 ren-yuan or 33539 22260 fan-wei,
  20027 21150 is zhu-ban (organise), 25215 21150 is cheng-ban (undertake),
  21333 20301 is dan-wei (unit), 26041 is fang (party).
\<close>

definition colon :: cls where
  "colon = OneOf [Ch 65306, Ch 58]"

text \<open>\<open>\d{4}Y\d{1,2}M\d{1,2}D\<close> inside group \<open>g\<close>, with the characters for year, month, day.\<close>

definition ymd_date :: "nat \<Rightarrow> regex" where
  "ymd_date g = rep g Digit 4 4 @ once g (Ch 24180) @ rep g Digit 1 2 @ once g (Ch 26376)
                @ rep g Digit 1 2 @ once g (Ch 26085)"

text \<open>\<open>\d{4}\.\d{1,2}\.\d{1,2}\<close> inside group \<open>g\<close>.\<close>

definition dot_date :: "nat \<Rightarrow> regex" where
  "dot_date g = rep g Digit 4 4 @ once g (Ch 46) @ rep g Digit 1 2 @ once g (Ch 46)
                @ rep g Digit 1 2"

definition date_patterns :: "regex list" where
  "date_patterns =
    [lit [25253, 21517, 26085, 26399] @ once 0 colon @ star 0 Space
       @ plus1 1 (OneOf [Digit, Ch 24180, Ch 26376, Ch 26085, Space, Ch 33267]),
     lit [25253, 21517, 26102, 38388] @ once 0 colon @ star 0 Space
       @ plus1 1 (OneOf [Digit, Ch 24180, Ch 26376, Ch 26085, Space, Ch 33267]),
     ymd_date 1 @ once 0 (OneOf [Ch 33267, Ch 21040]) @ star 0 Space @ ymd_date 2,
     dot_date 1 @ once 0 (OneOf [Ch 33267, Ch 21040]) @ star 0 Space @ dot_date 2,
     ymd_date 1 @ star 0 Space @ once 0 (OneOf [Ch 36215, Ch 33267, Ch 21040]) @ star 0 Space
       @ ymd_date 2 @ star 0 Space @ opt 0 (OneOf [Ch 32467, Ch 26463]),
     dot_date 1 @ star 0 Space @ once 0 (OneOf [Ch 36215, Ch 33267, Ch 21040]) @ star 0 Space
       @ dot_date 2 @ star 0 Space @ opt 0 (OneOf [Ch 32467, Ch 26463])]"

text \<open>\<open>LABEL[colon]\s*([^.\n]+)\<close>, the full stop being the ideographic one.\<close>

definition labelled :: "ustr \<Rightarrow> regex" where
  "labelled label = lit label @ once 0 colon @ star 0 Space
                    @ plus1 1 (NoneOf [Ch 12290, Ch 10])"

definition requirements_patterns :: "regex list" where
  "requirements_patterns =
    [labelled [21442, 36187, 23545, 35937],
     labelled [21442, 36187, 36164, 26684],
     labelled [21442, 36187, 20154, 21592],
     labelled [21442, 36187, 33539, 22260]]"

definition organizer_patterns :: "regex list" where
  "organizer_patterns =
    [labelled [20027, 21150],
     labelled [20027, 21150, 21333, 20301],
     labelled [20027, 21150, 26041]]"

definition undertaker_patterns :: "regex list" where
  "undertaker_patterns =
    [labelled [25215, 21150],
     labelled [25215, 21150, 21333, 20301],
     labelled [25215, 21150, 26041]]"

subsection \<open>The sentinels\<close>

text \<open>
  26410 25214 21040 is wei-zhao-dao (not found); the four sentinels are "registration
  date not found", "requirements not found", "organiser not found" and "undertaker not
  found".
\<close>

definition no_date_info :: ustr where
  "no_date_info = [26410, 25214, 21040, 25253, 21517, 26085, 26399]"

definition no_requirements :: ustr where
  "no_requirements = [26410, 25214, 21040, 21442, 36187, 35201, 27714]"

definition no_organizer :: ustr where
  "no_organizer = [26410, 25214, 21040, 20027, 21150, 26041]"

definition no_undertaker :: ustr where
  "no_undertaker = [26410, 25214, 21040, 25215, 21150, 26041]"

subsection \<open>The loops\<close>

text \<open>
  The loop over the images (lines 67 to 76): an image without \<open>src\<close>, or with an empty
  one, is passed over; a relative source is put under the base URL; the text of the
  image, when not empty, is appended to \<open>content_text\<close> after a newline.
\<close>

fun img_loop :: "env \<Rightarrow> ustr option list \<Rightarrow> ustr \<Rightarrow> state \<Rightarrow> (exn + ustr) \<times> state" where
  "img_loop w [] content_text s = (Inr content_text, s)"
| "img_loop w (img # img_tags) content_text s =
     (let img_url = (case img of None \<Rightarrow> [] | Some src \<Rightarrow> src)
      in if img_url \<noteq> [] then
           (case get_text_from_image w
                   (if \<not> startswith img_url (u ''http'')
                    then base_url @ u ''/'' @ lstrip_slash img_url else img_url) s of
              (Inl e, s') \<Rightarrow> (Inl e, s')
            | (Inr img_text, s') \<Rightarrow>
                if img_text \<noteq> [] then img_loop w img_tags (content_text @ [10] @ img_text) s'
                else img_loop w img_tags content_text s')
         else img_loop w img_tags content_text s)"

text \<open>
  The loop over the date patterns (lines 111 to 119). It stops at the first pattern
  that matches: one group gives the group, two groups give the first, the character
  zhi and the second.
\<close>

fun date_loop :: "unicode \<Rightarrow> regex list \<Rightarrow> ustr \<Rightarrow> ustr option" where
  "date_loop U [] content_text = None"
| "date_loop U (pattern # patterns) content_text =
     (case re_search U pattern content_text of
        None \<Rightarrow> date_loop U patterns content_text
      | Some m \<Rightarrow>
          if length (groups pattern m) = 1 then Some (group pattern m 1)
          else if length (groups pattern m) = 2
               then Some (group pattern m 1 @ [33267] @ group pattern m 2)
          else None)"

text \<open>
  The loop of each of the three other families (lines 122 to 141). It stops at the
  first pattern that matches and takes group 1, which raises when the pattern has no
  group.
\<close>

fun field_loop :: "unicode \<Rightarrow> regex list \<Rightarrow> ustr \<Rightarrow> exn + ustr option" where
  "field_loop U [] content_text = Inr None"
| "field_loop U (pattern # patterns) content_text =
     (case re_search U pattern content_text of
        None \<Rightarrow> field_loop U patterns content_text
      | Some m \<Rightarrow> if 1 \<le> ngroups pattern then Inr (Some (group pattern m 1))
                  else Inl IndexError)"

text \<open>\<open>x if x else sentinel\<close>: \<open>None\<close> and the empty string are both false.\<close>

definition or_else :: "ustr option \<Rightarrow> ustr \<Rightarrow> ustr" where
  "or_else x sentinel = (case x of None \<Rightarrow> sentinel | Some v \<Rightarrow> if v \<noteq> [] then v else sentinel)"

subsection \<open>The function\<close>

text \<open>The dictionary the function returns: all five keys are always there.\<close>

record content_info =
  c_content :: ustr
  c_date_info :: ustr
  c_requirements :: ustr
  c_organizer :: ustr
  c_undertaker :: ustr

text \<open>The body of the \<open>try\<close> block. The status code of the answer is not looked at.\<close>

definition parse_news_try :: "env \<Rightarrow> ustr \<Rightarrow> state \<Rightarrow> (exn + content_info) \<times> state" where
  "parse_news_try w url s =
     (case requests_get w url s of
        (Inl e, s') \<Rightarrow> (Inl e, s')
      | (Inr response, s') \<Rightarrow>
          (case soup_img_src w (body response) of
             Inl e \<Rightarrow> (Inl e, s')
           | Inr img_tags \<Rightarrow>
               (case img_loop w img_tags [] s' of
                  (Inl e, s'') \<Rightarrow> (Inl e, s'')
                | (Inr content_text, s'') \<Rightarrow>
                    (case field_loop (uni w) requirements_patterns content_text of
                       Inl e \<Rightarrow> (Inl e, s'')
                     | Inr requirements \<Rightarrow>
                    (case field_loop (uni w) organizer_patterns content_text of
                       Inl e \<Rightarrow> (Inl e, s'')
                     | Inr organizer \<Rightarrow>
                    (case field_loop (uni w) undertaker_patterns content_text of
                       Inl e \<Rightarrow> (Inl e, s'')
                     | Inr undertaker \<Rightarrow>
                         (Inr \<lparr>c_content = content_text,
                               c_date_info =
                                 or_else (date_loop (uni w) date_patterns content_text)
                                   no_date_info,
                               c_requirements = or_else requirements no_requirements,
                               c_organizer = or_else organizer no_organizer,
                               c_undertaker = or_else undertaker no_undertaker\<rparr>, s'')))))))"

text \<open>The function: \<open>except Exception\<close> turns every exception into \<open>None\<close>.\<close>

definition parse_news_content ::
  "env \<Rightarrow> ustr \<Rightarrow> state \<Rightarrow> (exn + content_info option) \<times> state" where
  "parse_news_content w url s =
     (case parse_news_try w url s of
        (Inl e, s') \<Rightarrow> (Inr None, s')
      | (Inr info, s') \<Rightarrow> (Inr (Some info), s'))"

section \<open>\<open>AdCompetitionSpider.fetch_news_urls\<close>\<close>

text \<open>
  One entry of the list the function returns. It is a dictionary in the source: the
  first five keys are always there, the last five only when the detail page was
  processed, so each of them is optional here (\<open>None\<close> when the key is absent).
\<close>

record news_info =
  index :: nat
  title :: ustr
  date :: ustr
  url :: ustr
  is_competition :: bool
  content :: "ustr option"
  date_info :: "ustr option"
  requirements :: "ustr option"
  organizer :: "ustr option"
  undertaker :: "ustr option"

text \<open>
  The keywords: 22823 24191 36187 is da-guang-sai (the name of the contest),
  24449 38598 is zheng-ji (call for entries), 21442 36187 is can-sai (take part),
  27604 36187 is bi-sai (match), 31454 36187 is jing-sai (contest),
  20316 21697 is zuo-pin (work).
\<close>

definition competition_keywords :: "ustr list" where
  "competition_keywords =
     [[22823, 24191, 36187], [24449, 38598], [21442, 36187], [27604, 36187],
      [31454, 36187], [20316, 21697]]"

text \<open>\<open>any(keyword in title for keyword in competition_keywords)\<close>\<close>

definition has_keyword :: "ustr \<Rightarrow> bool" where
  "has_keyword t = (\<exists>keyword \<in> set competition_keywords. contains t keyword)"

text \<open>The absolute URL of a link (lines 186 to 192).\<close>

definition absolute_url :: "ustr \<Rightarrow> ustr" where
  "absolute_url h =
     (if startswith h (u ''http'') then h
      else if startswith h (u ''/'') then base_url @ h
      else base_url @ u ''/'' @ h)"

text \<open>
  The body of the loop over the items (lines 174 to 229) for the item at position
  \<open>idx\<close>: \<open>None\<close> when the item is passed over (\<open>continue\<close>), the entry otherwise.
  The variables \<open>index\<close>, \<open>title\<close>, \<open>date\<close> and \<open>url\<close> of the source are \<open>idx\<close>,
  \<open>ttl\<close>, \<open>dt\<close> and \<open>lnk\<close> here, the names being those of the fields of the entry.
\<close>

definition news_item ::
  "env \<Rightarrow> nat \<Rightarrow> li \<Rightarrow> state \<Rightarrow> (exn + news_info option) \<times> state" where
  "news_item w idx item s =
     (case item of
        None \<Rightarrow> (Inr None, s)
      | Some link \<Rightarrow>
          (case h3 link of
             None \<Rightarrow> (Inr None, s)
           | Some ttl \<Rightarrow>
               (let dt = (case em link of None \<Rightarrow> [] | Some d \<Rightarrow> d);
                    lnk = absolute_url (case href link of None \<Rightarrow> [] | Some h \<Rightarrow> h)
                in if has_keyword ttl then
                     (case parse_news_content w lnk s of
                        (Inl e, s') \<Rightarrow> (Inl e, s')
                      | (Inr (Some info), s') \<Rightarrow>
                          (Inr (Some \<lparr>index = idx, title = ttl, date = dt, url = lnk,
                                      is_competition = True,
                                      content = Some (c_content info),
                                      date_info = Some (c_date_info info),
                                      requirements = Some (c_requirements info),
                                      organizer = Some (c_organizer info),
                                      undertaker = Some (c_undertaker info)\<rparr>), s')
                      | (Inr None, s') \<Rightarrow>
                          (Inr (Some \<lparr>index = idx, title = ttl, date = dt, url = lnk,
                                      is_competition = True,
                                      content = None, date_info = None,
                                      requirements = None, organizer = None,
                                      undertaker = None\<rparr>), s'))
                   else
                     (Inr (Some \<lparr>index = idx, title = ttl, date = dt, url = lnk,
                                 is_competition = False,
                                 content = None, date_info = None,
                                 requirements = None, organizer = None,
                                 undertaker = None\<rparr>), s))))"

text \<open>\<open>for index, item in enumerate(news_items, 1)\<close>, appending to \<open>news_urls\<close>.\<close>

fun items_loop ::
  "env \<Rightarrow> nat \<Rightarrow> li list \<Rightarrow> news_info list \<Rightarrow> state \<Rightarrow> (exn + news_info list) \<times> state" where
  "items_loop w idx [] news_urls s = (Inr news_urls, s)"
| "items_loop w idx (item # news_items) news_urls s =
     (case news_item w idx item s of
        (Inl e, s') \<Rightarrow> (Inl e, s')
      | (Inr None, s') \<Rightarrow> items_loop w (Suc idx) news_items news_urls s'
      | (Inr (Some info), s') \<Rightarrow> items_loop w (Suc idx) news_items (news_urls @ [info]) s')"

text \<open>The body of the \<open>try\<close> block. The status code of the answer is not looked at.\<close>

definition fetch_news_try :: "env \<Rightarrow> state \<Rightarrow> (exn + news_info list) \<times> state" where
  "fetch_news_try w s =
     (case requests_get w (base_url @ u ''/home/newss.html'') s of
        (Inl e, s') \<Rightarrow> (Inl e, s')
      | (Inr response, s') \<Rightarrow>
          (case soup_list_news w (body response) of
             Inl e \<Rightarrow> (Inl e, s')
           | Inr None \<Rightarrow> (Inr [], s')
           | Inr (Some news_items) \<Rightarrow> items_loop w 1 news_items [] s'))"

text \<open>The function: \<open>except Exception\<close> turns every exception into the empty list.\<close>

definition fetch_news_urls :: "env \<Rightarrow> state \<Rightarrow> (exn + news_info list) \<times> state" where
  "fetch_news_urls w s =
     (case fetch_news_try w s of
        (Inl e, s') \<Rightarrow> (Inr [], s')
      | (Inr news_urls, s') \<Rightarrow> (Inr news_urls, s'))"

section \<open>\<open>CompetitionBot\<close>\<close>

text \<open>
  \<open>save_competition\<close>. An error of the database other than the duplicate key (raised by
  \<open>connect\<close>, which is outside the \<open>try\<close>, or by \<open>execute\<close> and \<open>commit\<close>, where only
  \<open>IntegrityError\<close> is caught) leaves the function as an exception. \<open>connect\<close> raises
  no \<open>IntegrityError\<close>, so an \<open>IntegrityError\<close> comes from inside the \<open>try\<close> and is
  caught, whatever its cause: the function gives \<open>False\<close>. Otherwise the \<open>INSERT\<close> of a
  key that is in the table raises \<open>IntegrityError\<close>, which is caught and gives \<open>False\<close>,
  and the \<open>INSERT\<close> of a new key adds the row and gives \<open>True\<close>.
  \<open>competition.get(key, '')\<close> is the empty string when the key is absent.
\<close>

definition platform :: ustr where
  "platform = [22823, 24191, 36187]"

definition row_of :: "news_info \<Rightarrow> nat \<Rightarrow> row" where
  "row_of competition t =
     \<lparr>col_id = str_nat (index competition),
      col_title = title competition,
      col_url = url competition,
      col_date_info = (case date_info competition of None \<Rightarrow> [] | Some v \<Rightarrow> v),
      col_requirements = (case requirements competition of None \<Rightarrow> [] | Some v \<Rightarrow> v),
      col_organizer = (case organizer competition of None \<Rightarrow> [] | Some v \<Rightarrow> v),
      col_undertaker = (case undertaker competition of None \<Rightarrow> [] | Some v \<Rightarrow> v),
      col_platform = platform,
      col_created_at = t\<rparr>"

definition save_competition :: "env \<Rightarrow> news_info \<Rightarrow> state \<Rightarrow> (exn + bool) \<times> state" where
  "save_competition w competition s =
     (let s1 = s\<lparr>db_calls := Suc (db_calls s)\<rparr>
      in case sqlite_fault w (db_calls s) of
           Some e \<Rightarrow> if e = IntegrityError then (Inr False, s1) else (Inl e, s1)
         | None \<Rightarrow>
             (case db s (str_nat (index competition)) of
                Some existing \<Rightarrow> (Inr False, s1)
              | None \<Rightarrow>
                  (Inr True,
                   s1\<lparr>db := (db s)(str_nat (index competition) \<mapsto>
                                      row_of competition (now s))\<rparr>)))"

text \<open>
  \<open>subscribe_command\<close> and \<open>unsubscribe_command\<close>: \<open>self.chat_ids.add(chat_id)\<close> and
  \<open>self.chat_ids.discard(chat_id)\<close>.
\<close>

fun handle_command :: "command \<Rightarrow> int list \<Rightarrow> int list" where
  "handle_command (Subscribe chat_id) ids =
     (if chat_id \<in> set ids then ids else ids @ [chat_id])"
| "handle_command (Unsubscribe chat_id) ids = removeAll chat_id ids"

definition handle_commands :: "command list \<Rightarrow> state \<Rightarrow> state" where
  "handle_commands commands s = s\<lparr>chat_ids := fold handle_command commands (chat_ids s)\<rparr>"

text \<open>
  \<open>TelegramBot.send_message\<close>: \<open>for chat_id in self.chat_ids\<close>, over the set itself and
  not a copy of it. A delivery that raises is logged and the loop goes on: the \<open>try\<close>
  is inside the loop. The delivery is awaited, so commands can be handled during it,
  and they change the set the loop is iterating. The iterator compares the size of
  the set with the size it had when the loop began (\<open>size0\<close>) each time it is asked
  for the next subscriber, also the last time, when none is left: a different size
  raises \<open>RuntimeError\<close> (set changed size during iteration), outside the \<open>try\<close>.
  One turn of the loop is \<open>deliver\<close>: the delivery, and the commands handled while it
  is awaited.
\<close>

definition deliver :: "env \<Rightarrow> int \<Rightarrow> ustr \<Rightarrow> state \<Rightarrow> state" where
  "deliver w chat_id message s =
     handle_commands (during_delivery w (deliveries s))
       ((case bot_send w chat_id message of
           Some e \<Rightarrow> s
         | None \<Rightarrow> s\<lparr>outbox := outbox s @ [(chat_id, message)]\<rparr>)
        \<lparr>deliveries := Suc (deliveries s)\<rparr>)"

fun send_loop ::
  "env \<Rightarrow> nat \<Rightarrow> nat \<Rightarrow> int list \<Rightarrow> ustr \<Rightarrow> state \<Rightarrow> (exn + unit) \<times> state" where
  "send_loop w fuel size0 [] message s = (Inr (), s)"
| "send_loop w fuel size0 (chat_id # ids) message s =
     (if during_delivery w (deliveries s) = []
      then send_loop w fuel size0 ids message (deliver w chat_id message s)
      else if length (chat_ids (deliver w chat_id message s)) \<noteq> size0
      then (Inl RuntimeError, deliver w chat_id message s)
      else (case fuel of
              0 \<Rightarrow> (Inr (), deliver w chat_id message s)
            | Suc f \<Rightarrow>
                send_loop w f size0 (resumed w (deliveries s)) message
                  (deliver w chat_id message s)))"

definition send_message :: "env \<Rightarrow> ustr \<Rightarrow> state \<Rightarrow> (exn + unit) \<times> state" where
  "send_message w message s =
     send_loop w (resumptions w) (length (chat_ids s)) (chat_ids s) message s"

text \<open>
  \<open>push_message\<close>: the message of an entry. The labels are "new competition found",
  "title", "platform", "registration date", "requirements", "organiser", "undertaker"
  and "link"; \<open>competition.get(key, default)\<close> with the default wei-zhao-dao
  (26410 25214 21040, not found).
\<close>

definition bold :: "ustr \<Rightarrow> ustr" where
  "bold label = u ''<b>'' @ label @ u ''</b>''"

definition get_or_not_found :: "ustr option \<Rightarrow> ustr" where
  "get_or_not_found x = (case x of None \<Rightarrow> [26410, 25214, 21040] | Some v \<Rightarrow> v)"

definition message_of :: "news_info \<Rightarrow> ustr" where
  "message_of competition =
     [10] @ bold [21457, 29616, 26032, 27604, 36187, 65281] @
     [10] @ bold [26631, 39064, 65306] @ title competition @
     [10] @ bold [24179, 21488, 65306] @ [22823, 24191, 36187] @
     [10] @ bold [25253, 21517, 26085, 26399, 65306] @ get_or_not_found (date_info competition) @
     [10] @ bold [21442, 36187, 35201, 27714, 65306] @ get_or_not_found (requirements competition) @
     [10] @ bold [20027, 21150, 26041, 65306] @ get_or_not_found (organizer competition) @
     [10] @ bold [25215, 21150, 26041, 65306] @ get_or_not_found (undertaker competition) @
     [10] @ bold [35814, 24773, 38142, 25509, 65306] @ url competition @
     [10] @ u ''        ''"

definition push_message :: "env \<Rightarrow> news_info \<Rightarrow> state \<Rightarrow> (exn + unit) \<times> state" where
  "push_message w competition s = send_message w (message_of competition) s"

text \<open>
  \<open>run_task\<close>: the loop over the relevant entries. \<open>and\<close> evaluates its right side only
  when the left one holds, so \<open>save_competition\<close> is called only for an entry that has
  the key \<open>content\<close>, and \<open>push_message\<close> only when it returned \<open>True\<close>.
\<close>

fun competition_loop :: "env \<Rightarrow> news_info list \<Rightarrow> state \<Rightarrow> (exn + unit) \<times> state" where
  "competition_loop w [] s = (Inr (), s)"
| "competition_loop w (competition # competition_news) s =
     (if content competition \<noteq> None then
        (case save_competition w competition s of
           (Inl e, s') \<Rightarrow> (Inl e, s')
         | (Inr True, s') \<Rightarrow>
             (case push_message w competition s' of
                (Inl e, s'') \<Rightarrow> (Inl e, s'')
              | (Inr sent, s'') \<Rightarrow> competition_loop w competition_news s'')
         | (Inr False, s') \<Rightarrow> competition_loop w competition_news s')
      else competition_loop w competition_news s)"

definition run_task :: "env \<Rightarrow> state \<Rightarrow> (exn + unit) \<times> state" where
  "run_task w s =
     (case fetch_news_urls w s of
        (Inl e, s') \<Rightarrow> (Inl e, s')
      | (Inr news_urls, s') \<Rightarrow> competition_loop w (filter is_competition news_urls) s')"

text \<open>
  \<open>scheduled_task\<close>: \<open>while True\<close>, a pass and then a sleep of twelve hours, during
  which commands are handled. The loop has no end of its own, so the model runs a
  given number of passes: the result is \<open>Some e\<close> when a pass raised \<open>e\<close>, which ends
  the loop there, and \<open>None\<close> when the loop is still running after that many passes.
\<close>

definition sleep :: "env \<Rightarrow> state \<Rightarrow> state" where
  "sleep w s = handle_commands (during_sleep w (now s)) (s\<lparr>now := now s + 12 * 3600\<rparr>)"

fun scheduled_task :: "env \<Rightarrow> nat \<Rightarrow> state \<Rightarrow> exn option \<times> state" where
  "scheduled_task w 0 s = (None, s)"
| "scheduled_task w (Suc n) s =
     (case run_task w s of
        (Inl e, s') \<Rightarrow> (Some e, s')
      | (Inr ok, s') \<Rightarrow> scheduled_task w n (sleep w s'))"

section \<open>Notions used to state the properties\<close>

text \<open>
  The value a match gives to a field: with two groups the first, the character zhi
  and the second; with one group the group.
\<close>

definition captured :: "regex \<Rightarrow> ustr list \<Rightarrow> ustr" where
  "captured p m =
     (if ngroups p = 2 then group p m 1 @ [33267] @ group p m 2 else group p m 1)"

text \<open>
  First match wins, as a specification: the first pattern of the family, in list order,
  that matches the text gives the value; no pattern matching gives nothing.
\<close>

definition first_match :: "unicode \<Rightarrow> regex list \<Rightarrow> ustr \<Rightarrow> ustr option" where
  "first_match U family t =
     (case List.find (\<lambda>p. re_search U p t \<noteq> None) family of
        None \<Rightarrow> None
      | Some p \<Rightarrow> map_option (captured p) (re_search U p t))"

text \<open>The value of a field: the value of the first match, or the sentinel of the family.\<close>

definition field_value :: "unicode \<Rightarrow> regex list \<Rightarrow> ustr \<Rightarrow> ustr \<Rightarrow> ustr" where
  "field_value U family sentinel t =
     (case first_match U family t of None \<Rightarrow> sentinel | Some v \<Rightarrow> v)"

text \<open>
  The source an image is fetched from (lines 68 to 71), when it has one, and the text
  recognised on each image of a page, in the order of the images.
\<close>

definition img_source :: "ustr option \<Rightarrow> ustr option" where
  "img_source img =
     (case img of
        None \<Rightarrow> None
      | Some src \<Rightarrow>
          if src = [] then None
          else if \<not> startswith src (u ''http'')
               then Some (base_url @ u ''/'' @ lstrip_slash src)
          else Some src)"

fun image_texts :: "env \<Rightarrow> ustr option list \<Rightarrow> state \<Rightarrow> ustr list" where
  "image_texts w [] s = []"
| "image_texts w (img # img_tags) s =
     (case img_source img of
        None \<Rightarrow> image_texts w img_tags s
      | Some src \<Rightarrow>
          (case fst (get_text_from_image w src s) of
             Inl e \<Rightarrow> []
           | Inr t \<Rightarrow> t # image_texts w img_tags (snd (get_text_from_image w src s))))"

text \<open>
  The four fields of an entry go with its content: an entry without content has none
  of them, and an entry with content has each of them, with the value of the field for
  that content.
\<close>

definition fields_follow_content :: "unicode \<Rightarrow> news_info \<Rightarrow> bool" where
  "fields_follow_content U e =
     (case content e of
        None \<Rightarrow> date_info e = None \<and> requirements e = None \<and> organizer e = None
                \<and> undertaker e = None
      | Some t \<Rightarrow>
          date_info e = Some (field_value U date_patterns no_date_info t)
          \<and> requirements e = Some (field_value U requirements_patterns no_requirements t)
          \<and> organizer e = Some (field_value U organizer_patterns no_organizer t)
          \<and> undertaker e = Some (field_value U undertaker_patterns no_undertaker t))"

text \<open>An item of the listing is well formed when it has a link and the link a title.\<close>

definition well_formed :: "li \<Rightarrow> bool" where
  "well_formed item = (case item of None \<Rightarrow> False | Some link \<Rightarrow> h3 link \<noteq> None)"

text \<open>
  The positions and titles of the well-formed items of a listing, the positions counted
  from \<open>n\<close> over all the items: \<open>enumerate(news_items, n)\<close> without the items passed over.
\<close>

definition numbered_titles :: "nat \<Rightarrow> li list \<Rightarrow> (nat \<times> ustr) list" where
  "numbered_titles n news_items =
     concat (map (\<lambda>(i, item). case item of
                    None \<Rightarrow> []
                  | Some link \<Rightarrow> (case h3 link of None \<Rightarrow> [] | Some t \<Rightarrow> [(i, t)]))
                 (enumerate n news_items))"

text \<open>The number a string of decimal digits stands for.\<close>

definition decimal_value :: "ustr \<Rightarrow> nat" where
  "decimal_value ds = foldl (\<lambda>a d. 10 * a + (d - 48)) 0 ds"

text \<open>A state that differs from another one only by further requests.\<close>

definition more_requests :: "state \<Rightarrow> state \<Rightarrow> bool" where
  "more_requests s s' = (\<exists>rs. s' = s\<lparr>requested := requested s @ rs\<rparr>)"

text \<open>The entry of a listing item whose detail page was not processed.\<close>

definition bare :: "nat \<Rightarrow> ustr \<Rightarrow> ustr \<Rightarrow> ustr \<Rightarrow> bool \<Rightarrow> news_info" where
  "bare i t d l c =
     \<lparr>index = i, title = t, date = d, url = l, is_competition = c,
      content = None, date_info = None, requirements = None, organizer = None,
      undertaker = None\<rparr>"

section \<open>Example environments\<close>

text \<open>A table of digits and white space that covers ASCII.\<close>

definition ascii :: unicode where
  "ascii = \<lparr>isdigit = (\<lambda>c. 48 \<le> c \<and> c \<le> 57),
            isspace = (\<lambda>c. c \<in> {9, 10, 11, 12, 13, 32})\<rparr>"

text \<open>A fresh state with one subscriber.\<close>

definition start :: state where
  "start = \<lparr>requested = [], db = Map.empty, db_calls = 0, now = 0, chat_ids = [7],
            outbox = [], deliveries = 0\<rparr>"

text \<open>No network: every request raises.\<close>

definition offline :: env where
  "offline =
     \<lparr>uni = ascii,
      net = (\<lambda>k address. Inl RequestException),
      soup_img_src = (\<lambda>b. Inr []),
      soup_list_news = (\<lambda>b. Inr None),
      image_open = (\<lambda>b. Inr b),
      ocr = (\<lambda>i. Inr None),
      sqlite_fault = (\<lambda>k. None),
      bot_send = (\<lambda>c m. None),
      during_delivery = (\<lambda>k. []),
      resumed = (\<lambda>k. []),
      resumptions = 0,
      during_sleep = (\<lambda>t. [])\<rparr>"

text \<open>
  A site whose listing has four items: a competition (title bi-sai) whose detail page
  has four images, an item without a link, a notice, and a call for entries (title
  zheng-ji) whose detail page cannot be fetched. Of the images, the first reads
  "zhu-ban: A" (organiser: A), the second has no source, the third is answered with
  status 404, and the fourth reads "B".
\<close>

definition site_net :: "ustr \<Rightarrow> exn + response" where
  "site_net address =
     (if address = base_url @ u ''/home/newss.html'' then Inr \<lparr>status_code = 200, body = [0]\<rparr>
      else if address = base_url @ u ''/n1.html'' then Inr \<lparr>status_code = 200, body = [1]\<rparr>
      else if address = base_url @ u ''/a.png'' then Inr \<lparr>status_code = 200, body = [10]\<rparr>
      else if address = base_url @ u ''/b.png'' then Inr \<lparr>status_code = 404, body = [11]\<rparr>
      else if address = u ''http://c/c.png'' then Inr \<lparr>status_code = 200, body = [12]\<rparr>
      else Inl RequestException)"

definition site_items :: "li list" where
  "site_items =
     [Some \<lparr>h3 = Some [27604, 36187], em = Some (u ''2024-03-01''), href = Some (u ''/n1.html'')\<rparr>,
      None,
      Some \<lparr>h3 = Some (u ''notice''), em = None, href = Some (u ''n3.html'')\<rparr>,
      Some \<lparr>h3 = Some [24449, 38598], em = None, href = Some (u ''http://x/n4'')\<rparr>]"

definition site :: env where
  "site =
     \<lparr>uni = ascii,
      net = (\<lambda>k. site_net),
      soup_img_src = (\<lambda>b. if b = [1]
         then Inr [Some (u ''a.png''), None, Some (u ''/b.png''), Some (u ''http://c/c.png'')]
         else Inr []),
      soup_list_news = (\<lambda>b. if b = [0] then Inr (Some site_items) else Inr None),
      image_open = (\<lambda>b. Inr b),
      ocr = (\<lambda>i. if i = [10] then Inr (Some [Some [[20027, 21150, 65306, 65]]])
                  else if i = [12] then Inr (Some [Some [[66]]])
                  else Inr None),
      sqlite_fault = (\<lambda>k. None),
      bot_send = (\<lambda>c m. None),
      during_delivery = (\<lambda>k. []),
      resumed = (\<lambda>k. []),
      resumptions = 0,
      during_sleep = (\<lambda>t. [])\<rparr>"

text \<open>
  A site whose listing has one competition (title bi-sai); only the listing can be
  fetched, every later request raises.
\<close>

definition lonely :: env where
  "lonely =
     offline\<lparr>net := (\<lambda>k address. if k = 0 then Inr \<lparr>status_code = 200, body = [0]\<rparr>
                              else Inl RequestException),
             soup_list_news := (\<lambda>b. Inr (Some
               [Some \<lparr>h3 = Some [27604, 36187], em = None, href = Some (u ''/n1.html'')\<rparr>]))\<rparr>"

text \<open>
  The same listing, with a detail page that has no image, and a database that is
  locked.
\<close>

definition locked :: env where
  "locked =
     lonely\<lparr>net := (\<lambda>k address. Inr \<lparr>status_code = 200, body = [0]\<rparr>),
            sqlite_fault := (\<lambda>k. Some OperationalError)\<rparr>"

text \<open>
  The same listing and detail page, with a database that works, and a new subscriber
  whose command is handled during each delivery.
\<close>

definition joining :: env where
  "joining =
     lonely\<lparr>net := (\<lambda>k address. Inr \<lparr>status_code = 200, body = [0]\<rparr>),
            during_delivery := (\<lambda>k. [Subscribe 8])\<rparr>"

text \<open>
  A server that answers the listing request with status 500 and a body that has the
  list, with one notice in it.
\<close>

definition failing :: env where
  "failing =
     offline\<lparr>net := (\<lambda>k address. Inr \<lparr>status_code = 500, body = [0]\<rparr>),
             soup_list_news := (\<lambda>b. Inr (Some
               [Some \<lparr>h3 = Some (u ''notice''), em = None, href = Some (u ''n3.html'')\<rparr>]))\<rparr>"

text \<open>Two entries with the same index and different titles.\<close>

definition first_entry :: news_info where
  "first_entry = (bare 3 (u ''first'') [] (u ''http://x/1'') True)\<lparr>content := Some []\<rparr>"

definition second_entry :: news_info where
  "second_entry = (bare 3 (u ''second'') [] (u ''http://x/2'') True)\<lparr>content := Some []\<rparr>"

text \<open>The three entries the listing of that site gives.\<close>

definition site_entry1 :: news_info where
  "site_entry1 =
     \<lparr>index = 1, title = [27604, 36187], date = u ''2024-03-01'',
      url = base_url @ u ''/n1.html'', is_competition = True,
      content = Some [10, 20027, 21150, 65306, 65, 10, 66],
      date_info = Some no_date_info, requirements = Some no_requirements,
      organizer = Some [65], undertaker = Some no_undertaker\<rparr>"

definition site_entry3 :: news_info where
  "site_entry3 = bare 3 (u ''notice'') [] (base_url @ u ''/n3.html'') False"

definition site_entry4 :: news_info where
  "site_entry4 = bare 4 [24449, 38598] [] (u ''http://x/n4'') True"

section \<open>Properties\<close>

subsection \<open>Auxiliary facts\<close>

subsubsection \<open>What the spider does to the state, and that it does not raise\<close>

lemma more_requests_refl: "more_requests s s"
  unfolding more_requests_def by (rule exI [of _ "[]"]) simp

lemma more_requests_trans: "more_requests s s' \<Longrightarrow> more_requests s' s'' \<Longrightarrow> more_requests s s''"
  unfolding more_requests_def
proof (elim exE)
  fix rs rs'
  assume a: "s' = s\<lparr>requested := requested s @ rs\<rparr>"
     and b: "s'' = s'\<lparr>requested := requested s' @ rs'\<rparr>"
  have "s'' = s\<lparr>requested := requested s @ (rs @ rs')\<rparr>"
    by (simp add: a b)
  then show "\<exists>rs. s'' = s\<lparr>requested := requested s @ rs\<rparr>" ..
qed

lemma get_text_from_image_snd:
  "snd (get_text_from_image w a s) = s\<lparr>requested := requested s @ [a]\<rparr>"
  by (simp add: get_text_from_image_def get_text_try_def requests_get_def
           split: sum.splits prod.splits option.splits list.splits)

lemma get_text_from_image_Inr: "\<exists>t. fst (get_text_from_image w a s) = Inr t"
  by (simp add: get_text_from_image_def split: sum.splits prod.splits)

lemma get_text_from_image_more: "more_requests s (snd (get_text_from_image w a s))"
  unfolding more_requests_def get_text_from_image_snd by blast

lemma img_loop_Cons:
  "img_loop w (img # imgs) acc s =
     (case img_source img of
        None \<Rightarrow> img_loop w imgs acc s
      | Some src \<Rightarrow>
          (case get_text_from_image w src s of
             (Inl e, s') \<Rightarrow> (Inl e, s')
           | (Inr t, s') \<Rightarrow>
               if t \<noteq> [] then img_loop w imgs (acc @ [10] @ t) s'
               else img_loop w imgs acc s'))"
  by (simp add: img_source_def Let_def split: option.splits)


declare img_loop.simps(2) [simp del]

lemma img_loop_Inr: "\<exists>t. fst (img_loop w imgs acc s) = Inr t"
proof (induction imgs arbitrary: acc s)
  case Nil
  show ?case by simp
next
  case (Cons img imgs)
  show ?case
  proof (cases "img_source img")
    case None
    then show ?thesis using Cons.IH by (simp add: img_loop_Cons)
  next
    case (Some src)
    obtain t where t: "fst (get_text_from_image w src s) = Inr t"
      using get_text_from_image_Inr by blast
    then obtain s' where "get_text_from_image w src s = (Inr t, s')"
      by (cases "get_text_from_image w src s") simp
    then show ?thesis using Some Cons.IH by (simp add: img_loop_Cons)
  qed
qed

lemma img_loop_more: "more_requests s (snd (img_loop w imgs acc s))"
proof (induction imgs arbitrary: acc s)
  case Nil
  show ?case by (simp add: more_requests_refl)
next
  case (Cons img imgs)
  show ?case
  proof (cases "img_source img")
    case None
    then show ?thesis using Cons.IH by (simp add: img_loop_Cons)
  next
    case (Some src)
    obtain t where t: "fst (get_text_from_image w src s) = Inr t"
      using get_text_from_image_Inr by blast
    define s' where "s' = snd (get_text_from_image w src s)"
    have g: "get_text_from_image w src s = (Inr t, s')"
      using t by (simp add: s'_def prod_eq_iff)
    have m: "more_requests s s'"
      unfolding s'_def by (rule get_text_from_image_more)
    have "more_requests s' (snd (img_loop w (img # imgs) acc s))"
      using Some g Cons.IH by (simp add: img_loop_Cons)
    with m show ?thesis by (rule more_requests_trans)
  qed
qed

text \<open>The text of a page: every image adds a newline and its text, unless the text is empty.\<close>

lemma img_loop_texts:
  "fst (img_loop w imgs acc s) =
     Inr (acc @ concat (map (\<lambda>t. if t = [] then [] else 10 # t) (image_texts w imgs s)))"
proof (induction imgs arbitrary: acc s)
  case Nil
  show ?case by simp
next
  case (Cons img imgs)
  show ?case
  proof (cases "img_source img")
    case None
    then show ?thesis using Cons.IH by (simp add: img_loop_Cons)
  next
    case (Some src)
    obtain t where t: "fst (get_text_from_image w src s) = Inr t"
      using get_text_from_image_Inr by blast
    define s' where "s' = snd (get_text_from_image w src s)"
    have g: "get_text_from_image w src s = (Inr t, s')"
      using t by (simp add: s'_def prod_eq_iff)
    show ?thesis using Some g Cons.IH by (simp add: img_loop_Cons)
  qed
qed

lemma parse_news_try_more: "more_requests s (snd (parse_news_try w a s))"
proof -
  have r: "more_requests s (snd (requests_get w a s))"
    unfolding more_requests_def by (simp add: requests_get_def) blast
  show ?thesis
  proof (cases "requests_get w a s")
    case (Pair r1 s1)
    with r have m1: "more_requests s s1" by simp
    show ?thesis
    proof (cases r1)
      case (Inl e)
      with Pair m1 show ?thesis by (simp add: parse_news_try_def)
    next
      case (Inr response)
      show ?thesis
      proof (cases "soup_img_src w (body response)")
        case (Inl e)
        with Pair Inr m1 show ?thesis by (simp add: parse_news_try_def)
      next
        case imgs: (Inr img_tags)
        have m2: "more_requests s1 (snd (img_loop w img_tags [] s1))"
          by (rule img_loop_more)
        have "snd (parse_news_try w a s) = snd (img_loop w img_tags [] s1)"
          using Pair Inr imgs
          by (simp add: parse_news_try_def split: prod.splits sum.splits)
        with m1 m2 show ?thesis by (simp add: more_requests_trans)
      qed
    qed
  qed
qed

lemma parse_news_content_snd: "snd (parse_news_content w a s) = snd (parse_news_try w a s)"
  by (simp add: parse_news_content_def split: prod.splits sum.splits)

lemma parse_news_content_more: "more_requests s (snd (parse_news_content w a s))"
  by (simp add: parse_news_content_snd parse_news_try_more)

lemma parse_news_content_Inr: "\<exists>r. fst (parse_news_content w a s) = Inr r"
  by (simp add: parse_news_content_def split: prod.splits sum.splits)


lemma news_item_Inr: "\<exists>r. fst (news_item w idx item s) = Inr r"
proof (cases item)
  case None
  then show ?thesis by (simp add: news_item_def)
next
  case (Some link)
  show ?thesis
  proof (cases "h3 link")
    case None
    with Some show ?thesis by (simp add: news_item_def)
  next
    case t: (Some ttl)
    obtain r s' where "parse_news_content w
        (absolute_url (case href link of None \<Rightarrow> [] | Some h \<Rightarrow> h)) s = (Inr r, s')"
      using parse_news_content_Inr
      by (metis prod.collapse)
    with Some t show ?thesis
      by (cases r) (simp_all add: news_item_def Let_def)
  qed
qed

lemma news_item_more: "more_requests s (snd (news_item w idx item s))"
proof (cases item)
  case None
  then show ?thesis by (simp add: news_item_def more_requests_refl)
next
  case (Some link)
  show ?thesis
  proof (cases "h3 link")
    case None
    with Some show ?thesis by (simp add: news_item_def more_requests_refl)
  next
    case t: (Some ttl)
    have "more_requests s (snd (parse_news_content w
        (absolute_url (case href link of None \<Rightarrow> [] | Some h \<Rightarrow> h)) s))"
      by (rule parse_news_content_more)
    with Some t show ?thesis
      by (auto simp: news_item_def Let_def more_requests_refl
               split: prod.splits sum.splits option.splits)
  qed
qed

lemma news_item_None:
  "fst (news_item w idx item s) = Inr None \<longleftrightarrow> \<not> well_formed item"
  by (auto simp: news_item_def well_formed_def Let_def
           split: option.splits prod.splits sum.splits)

lemma news_item_Some:
  assumes "news_item w idx item s = (Inr (Some e), s')"
  shows "\<exists>link. item = Some link \<and> h3 link = Some (title e) \<and> index e = idx
           \<and> is_competition e = has_keyword (title e)
           \<and> url e = absolute_url (case href link of None \<Rightarrow> [] | Some h \<Rightarrow> h)"
  using assms
  by (auto simp: news_item_def Let_def split: option.splits prod.splits sum.splits if_splits)

lemma numbered_titles_Nil: "numbered_titles n [] = []"
  by (simp add: numbered_titles_def)

lemma numbered_titles_Cons:
  "numbered_titles n (item # news_items) =
     (case item of
        None \<Rightarrow> []
      | Some link \<Rightarrow> (case h3 link of None \<Rightarrow> [] | Some t \<Rightarrow> [(n, t)]))
     @ numbered_titles (Suc n) news_items"
  by (simp add: numbered_titles_def)

lemma items_loop_titles:
  "\<exists>r. fst (items_loop w idx news_items acc s) = Inr r
       \<and> map (\<lambda>e. (index e, title e)) r
         = map (\<lambda>e. (index e, title e)) acc @ numbered_titles idx news_items"
proof (induction news_items arbitrary: idx acc s)
  case Nil
  show ?case by (simp add: numbered_titles_Nil)
next
  case (Cons item news_items)
  obtain r s' where n: "news_item w idx item s = (Inr r, s')"
    using news_item_Inr by (metis prod.collapse)
  show ?case
  proof (cases r)
    case None
    with n have "\<not> well_formed item"
      using news_item_None [of w idx item s] by simp
    then have "numbered_titles idx (item # news_items) = numbered_titles (Suc idx) news_items"
      by (auto simp: numbered_titles_Cons well_formed_def split: option.splits)
    with n None Cons.IH [of "Suc idx" acc s'] show ?thesis by simp
  next
    case (Some e)
    with n obtain link where "item = Some link" "h3 link = Some (title e)" "index e = idx"
      using news_item_Some by blast
    then have "numbered_titles idx (item # news_items)
               = (index e, title e) # numbered_titles (Suc idx) news_items"
      by (simp add: numbered_titles_Cons)
    with n Some Cons.IH [of "Suc idx" "acc @ [e]" s'] show ?thesis by simp
  qed
qed

lemma items_loop_all:
  assumes "\<And>idx item s e s'. news_item w idx item s = (Inr (Some e), s') \<Longrightarrow> P e"
  shows "\<forall>e \<in> set acc. P e \<Longrightarrow> fst (items_loop w idx news_items acc s) = Inr r
         \<Longrightarrow> \<forall>e \<in> set r. P e"
proof (induction news_items arbitrary: idx acc s)
  case Nil
  then show ?case by simp
next
  case (Cons item news_items)
  obtain x s' where n: "news_item w idx item s = (Inr x, s')"
    using news_item_Inr by (metis prod.collapse)
  show ?case
  proof (cases x)
    case None
    with n Cons.prems Cons.IH [of acc "Suc idx" s'] show ?thesis by simp
  next
    case (Some e)
    with n have "P e" using assms by blast
    with n Some Cons.prems Cons.IH [of "acc @ [e]" "Suc idx" s'] show ?thesis by simp
  qed
qed

lemma items_loop_more: "more_requests s (snd (items_loop w idx news_items acc s))"
proof (induction news_items arbitrary: idx acc s)
  case Nil
  show ?case by (simp add: more_requests_refl)
next
  case (Cons item news_items)
  obtain x s' where n: "news_item w idx item s = (Inr x, s')"
    using news_item_Inr by (metis prod.collapse)
  then have m: "more_requests s s'"
    using news_item_more [of s w idx item] by simp
  show ?case
  proof (cases x)
    case None
    with n m Cons.IH [of s' "Suc idx" acc] show ?thesis
      by (simp add: more_requests_trans)
  next
    case (Some e)
    with n m Cons.IH [of s' "Suc idx" "acc @ [e]"] show ?thesis
      by (simp add: more_requests_trans)
  qed
qed


lemma fetch_news_urls_Inr: "\<exists>news. fst (fetch_news_urls w s) = Inr news"
  by (simp add: fetch_news_urls_def split: prod.splits sum.splits)

lemma fetch_news_urls_listed:
  assumes "net w (length (requested s)) (base_url @ u ''/home/newss.html'') = Inr r"
      and "soup_list_news w (body r) = Inr (Some news_items)"
  shows "fetch_news_urls w s =
           items_loop w 1 news_items []
             (s\<lparr>requested := requested s @ [base_url @ u ''/home/newss.html'']\<rparr>)"
proof -
  define a where "a = base_url @ u ''/home/newss.html''"
  define s1 where "s1 = s\<lparr>requested := requested s @ [a]\<rparr>"
  have g: "requests_get w a s = (Inr r, s1)"
    using assms(1) by (simp add: requests_get_def a_def s1_def)
  obtain x where x: "fst (items_loop w 1 news_items [] s1) = Inr x"
    using items_loop_titles by blast
  have t: "fetch_news_try w s = items_loop w 1 news_items [] s1"
    unfolding fetch_news_try_def a_def [symmetric] by (simp add: g assms(2))
  have "fetch_news_urls w s = items_loop w 1 news_items [] s1"
    unfolding fetch_news_urls_def t using x
    by (cases "items_loop w 1 news_items [] s1") simp
  then show ?thesis by (simp add: s1_def a_def)
qed

subsubsection \<open>Positions and decimal strings\<close>

lemma numbered_titles_range:
  "(i, t) \<in> set (numbered_titles n news_items) \<Longrightarrow>
     n \<le> i \<and> i < n + length news_items \<and> well_formed (news_items ! (i - n))"
proof (induction news_items arbitrary: n)
  case Nil
  then show ?case by (simp add: numbered_titles_Nil)
next
  case (Cons item news_items)
  show ?case
  proof (cases "(i, t) \<in> set (numbered_titles (Suc n) news_items)")
    case True
    from Cons.IH [OF True] have "Suc n \<le> i" "i < Suc n + length news_items"
      "well_formed (news_items ! (i - Suc n))" by simp_all
    moreover from \<open>Suc n \<le> i\<close> have "(item # news_items) ! (i - n) = news_items ! (i - Suc n)"
      by (simp add: nth_Cons' Suc_le_eq)
    ultimately show ?thesis by simp
  next
    case False
    with Cons.prems have "i = n \<and> well_formed item"
      by (cases item; cases "h3 (the item)")
         (auto simp: numbered_titles_Cons well_formed_def)
    then show ?thesis by simp
  qed
qed

lemma numbered_titles_sorted: "sorted_wrt (<) (map fst (numbered_titles n news_items))"
proof (induction news_items arbitrary: n)
  case Nil
  show ?case by (simp add: numbered_titles_Nil)
next
  case (Cons item news_items)
  have "\<forall>p \<in> set (numbered_titles (Suc n) news_items). n < fst p"
    using numbered_titles_range [of _ _ "Suc n" news_items] by force
  with Cons.IH [of "Suc n"] show ?case
    by (auto simp: numbered_titles_Cons split: option.splits)
qed

lemma decimal_value_snoc: "decimal_value (ds @ [d]) = 10 * decimal_value ds + (d - 48)"
  by (simp add: decimal_value_def)

lemma decimal_value_str_nat: "decimal_value (str_nat n) = n"
proof (induction n rule: str_nat.induct)
  case (1 n)
  show ?case
  proof (cases "n < 10")
    case True
    then show ?thesis by (simp add: str_nat.simps [of n] decimal_value_def)
  next
    case False
    with 1 have "decimal_value (str_nat (n div 10)) = n div 10" by simp
    with False show ?thesis
      by (simp add: str_nat.simps [of n] decimal_value_snoc)
  qed
qed

lemma str_nat_digits: "d \<in> set (str_nat n) \<Longrightarrow> 48 \<le> d \<and> d \<le> 57"
proof (induction n rule: str_nat.induct)
  case (1 n)
  show ?case
  proof (cases "n < 10")
    case True
    with "1.prems" show ?thesis by (simp add: str_nat.simps [of n])
  next
    case False
    have "n mod 10 < 10" by simp
    with False 1 show ?thesis
      by (auto simp: str_nat.simps [of n])
  qed
qed

subsubsection \<open>What a pass does to the state\<close>

lemma more_requests_same:
  assumes "more_requests s s'"
  shows "db s' = db s" "db_calls s' = db_calls s" "now s' = now s"
    "chat_ids s' = chat_ids s" "outbox s' = outbox s"
  using assms by (auto simp: more_requests_def)

lemma fetch_news_urls_more: "more_requests s (snd (fetch_news_urls w s))"
proof -
  define a where "a = base_url @ u ''/home/newss.html''"
  define s1 where "s1 = s\<lparr>requested := requested s @ [a]\<rparr>"
  have m1: "more_requests s s1"
    unfolding more_requests_def s1_def by blast
  have g: "requests_get w a s = (net w (length (requested s)) a, s1)"
    by (simp add: requests_get_def s1_def)
  have "snd (fetch_news_try w s) = s1 \<or>
        (\<exists>news_items. snd (fetch_news_try w s) = snd (items_loop w 1 news_items [] s1))"
    unfolding fetch_news_try_def a_def [symmetric] g
    by (auto split: sum.splits option.splits)
  then have "more_requests s (snd (fetch_news_try w s))"
    using m1 items_loop_more more_requests_trans by metis
  moreover have "snd (fetch_news_urls w s) = snd (fetch_news_try w s)"
    by (simp add: fetch_news_urls_def split: prod.splits sum.splits)
  ultimately show ?thesis by simp
qed

lemma handle_commands_same:
  "db (handle_commands cs s) = db s" "db_calls (handle_commands cs s) = db_calls s"
  "now (handle_commands cs s) = now s" "requested (handle_commands cs s) = requested s"
  "outbox (handle_commands cs s) = outbox s" "deliveries (handle_commands cs s) = deliveries s"
  by (simp_all add: handle_commands_def)

lemma send_loop_same:
  "db (snd (send_loop w fuel size0 ids m s)) = db s
   \<and> db_calls (snd (send_loop w fuel size0 ids m s)) = db_calls s
   \<and> now (snd (send_loop w fuel size0 ids m s)) = now s
   \<and> requested (snd (send_loop w fuel size0 ids m s)) = requested s"
  by (induction w fuel size0 ids m s rule: send_loop.induct)
     (auto simp: deliver_def handle_commands_same split: option.splits nat.splits)

lemma send_loop_outbox:
  "p \<in> set (outbox (snd (send_loop w fuel size0 ids m s))) \<Longrightarrow>
     p \<in> set (outbox s) \<or> snd p = m"
  by (induction w fuel size0 ids m s rule: send_loop.induct)
     (auto simp: deliver_def handle_commands_same split: option.splits nat.splits if_splits)

lemma send_loop_raises:
  "fst (send_loop w fuel size0 ids m s) = Inl e \<Longrightarrow>
     e = RuntimeError \<and> (\<exists>k. during_delivery w k \<noteq> [])"
  by (induction w fuel size0 ids m s rule: send_loop.induct)
     (auto split: option.splits nat.splits if_splits)


lemma push_message_same:
  "db (snd (push_message w c s)) = db s \<and> db_calls (snd (push_message w c s)) = db_calls s
   \<and> now (snd (push_message w c s)) = now s
   \<and> requested (snd (push_message w c s)) = requested s"
  by (simp add: push_message_def send_message_def send_loop_same)

lemma push_message_outbox:
  "p \<in> set (outbox (snd (push_message w c s))) \<Longrightarrow>
     p \<in> set (outbox s) \<or> snd p = message_of c"
  unfolding push_message_def send_message_def by (rule send_loop_outbox)

lemma push_message_raises:
  "fst (push_message w c s) = Inl e \<Longrightarrow>
     e = RuntimeError \<and> (\<exists>k. during_delivery w k \<noteq> [])"
  unfolding push_message_def send_message_def by (rule send_loop_raises)

lemma save_competition_same:
  assumes "save_competition w c s = (r, s')"
  shows "now s' = now s" "chat_ids s' = chat_ids s" "outbox s' = outbox s"
    "requested s' = requested s"
    "db s' k = Some x \<Longrightarrow> db s k = Some x \<or> x = row_of c (now s)"
  using assms
  by (auto simp: save_competition_def Let_def split: option.splits if_splits)

lemma save_competition_raises:
  "fst (save_competition w c s) = Inl e \<Longrightarrow>
     sqlite_fault w (db_calls s) = Some e \<and> e \<noteq> IntegrityError"
  by (auto simp: save_competition_def Let_def split: option.splits if_splits)

lemma competition_loop_filter:
  "competition_loop w cs s = competition_loop w (filter (\<lambda>c. content c \<noteq> None) cs) s"
proof (induction cs arbitrary: s)
  case Nil
  show ?case by simp
next
  case (Cons c cs)
  show ?case
  proof (cases "content c")
    case None
    then show ?thesis using Cons.IH by simp
  next
    case (Some t)
    then show ?thesis using Cons.IH
      by (simp split: prod.splits sum.splits bool.splits)
  qed
qed

lemma competition_loop_raises:
  "fst (competition_loop w cs s) = Inl e \<Longrightarrow>
     (\<exists>k. sqlite_fault w k = Some e \<and> e \<noteq> IntegrityError)
     \<or> (e = RuntimeError \<and> (\<exists>k. during_delivery w k \<noteq> []))"
proof (induction cs arbitrary: s)
  case Nil
  then show ?case by simp
next
  case (Cons c cs)
  show ?case
  proof (cases "content c")
    case None
    with Cons show ?thesis by simp
  next
    case (Some t)
    obtain r s1 where sv: "save_competition w c s = (r, s1)"
      by (cases "save_competition w c s")
    show ?thesis
    proof (cases r)
      case (Inl e')
      with sv Some Cons.prems have "e' = e" by simp
      with Inl sv save_competition_raises [of w c s e] show ?thesis by auto
    next
      case (Inr b)
      show ?thesis
      proof (cases b)
        case False
        with sv Some Inr Cons.prems Cons.IH show ?thesis by auto
      next
        case True
        obtain x s2 where p: "push_message w c s1 = (x, s2)"
          by (cases "push_message w c s1")
        show ?thesis
        proof (cases x)
          case (Inl e')
          with sv Some Inr True p Cons.prems have "e' = e" by simp
          with Inl p push_message_raises [of w c s1 e] show ?thesis by auto
        next
          case sent: (Inr u)
          with sv Some Inr True p Cons.prems Cons.IH show ?thesis by auto
        qed
      qed
    qed
  qed
qed

lemma competition_loop_effects:
  assumes "competition_loop w cs s = (r, s')"
  shows "now s' = now s \<and> requested s' = requested s
     \<and> (\<forall>k x. db s' k = Some x \<longrightarrow>
            db s k = Some x \<or> (\<exists>c \<in> set cs. content c \<noteq> None \<and> x = row_of c (now s)))
     \<and> (\<forall>p \<in> set (outbox s'). p \<in> set (outbox s)
            \<or> (\<exists>c \<in> set cs. content c \<noteq> None \<and> snd p = message_of c))"
  using assms
proof (induction cs arbitrary: s)
  case Nil
  then show ?case by simp
next
  case (Cons c cs)
  show ?case
  proof (cases "content c")
    case None
    with Cons.prems have "competition_loop w cs s = (r, s')" by simp
    from Cons.IH [OF this] show ?thesis by auto
  next
    case (Some t)
    obtain x s1 where sv: "save_competition w c s = (x, s1)"
      by (cases "save_competition w c s")
    note same = save_competition_same [OF sv]
    have rows1: "db s k = Some y \<or> (\<exists>c \<in> set (c # cs). content c \<noteq> None \<and> y = row_of c (now s))"
      if "db s1 k = Some y" for k y
      using same(5) [OF that] Some by auto
    show ?thesis
    proof (cases x)
      case (Inl e)
      with sv Some Cons.prems have "s' = s1" by simp
      with same rows1 show ?thesis by auto
    next
      case (Inr b)
      show ?thesis
      proof (cases b)
        case True
        obtain y s2 where p: "push_message w c s1 = (y, s2)"
          by (cases "push_message w c s1")
        have ps: "db s2 = db s1" "now s2 = now s1" "requested s2 = requested s1"
          using push_message_same [of w c s1] p by simp_all
        have o: "q \<in> set (outbox s2) \<Longrightarrow> q \<in> set (outbox s) \<or> snd q = message_of c" for q
          using push_message_outbox [of q w c s1] same(3) p by simp
        have rows2: "db s k = Some z
                     \<or> (\<exists>c \<in> set (c # cs). content c \<noteq> None \<and> z = row_of c (now s))"
          if "db s2 k = Some z" for k z
          using rows1 [of k z] that ps(1) by simp
        have sent2: "q \<in> set (outbox s)
                 \<or> (\<exists>c \<in> set (c # cs). content c \<noteq> None \<and> snd q = message_of c)"
          if "q \<in> set (outbox s2)" for q
          using o [OF that] Some by auto
        show ?thesis
        proof (cases y)
          case (Inl e)
          with sv Some Inr True p Cons.prems have "s' = s2" by simp
          with ps same(1,4) rows2 sent2 show ?thesis by auto
        next
          case sent: (Inr u)
          with sv Some Inr True p Cons.prems have l: "competition_loop w cs s2 = (r, s')"
            by simp
          from Cons.IH [OF l] have ih:
            "now s' = now s2" "requested s' = requested s2"
            "\<And>k x. db s' k = Some x \<Longrightarrow>
               db s2 k = Some x \<or> (\<exists>c \<in> set cs. content c \<noteq> None \<and> x = row_of c (now s2))"
            "\<And>q. q \<in> set (outbox s') \<Longrightarrow> q \<in> set (outbox s2)
               \<or> (\<exists>c \<in> set cs. content c \<noteq> None \<and> snd q = message_of c)"
            by blast+
          have d: "db s k = Some z
                   \<or> (\<exists>c \<in> set (c # cs). content c \<noteq> None \<and> z = row_of c (now s))"
            if "db s' k = Some z" for k z
            using ih(3) [OF that] rows2 [of k z] ps(2) same(1) by auto
          have m: "q \<in> set (outbox s)
                   \<or> (\<exists>c \<in> set (c # cs). content c \<noteq> None \<and> snd q = message_of c)"
            if "q \<in> set (outbox s')" for q
            using ih(4) [OF that] sent2 [of q] by auto
          from ih(1,2) ps same(1,4) d m show ?thesis by auto
        qed
      next
        case False
        from sv Some Inr False Cons.prems have l: "competition_loop w cs s1 = (r, s')"
          by simp
        from Cons.IH [OF l] have ih:
          "now s' = now s1" "requested s' = requested s1"
          "\<And>k x. db s' k = Some x \<Longrightarrow>
             db s1 k = Some x \<or> (\<exists>c \<in> set cs. content c \<noteq> None \<and> x = row_of c (now s1))"
          "\<And>q. q \<in> set (outbox s') \<Longrightarrow> q \<in> set (outbox s1)
             \<or> (\<exists>c \<in> set cs. content c \<noteq> None \<and> snd q = message_of c)"
          by blast+
        have d: "db s k = Some z
                 \<or> (\<exists>c \<in> set (c # cs). content c \<noteq> None \<and> z = row_of c (now s))"
          if "db s' k = Some z" for k z
          using ih(3) [OF that] rows1 [of k z] same(1) by auto
        have m: "q \<in> set (outbox s)
                 \<or> (\<exists>c \<in> set (c # cs). content c \<noteq> None \<and> snd q = message_of c)"
          if "q \<in> set (outbox s')" for q
          using ih(4) [OF that] same(3) by auto
        from ih(1,2) same(1,4) d m show ?thesis by auto
      qed
    qed
  qed
qed

subsubsection \<open>The example site, evaluated\<close>

lemmas regex_defs = lit_def once_def star_def plus1_def opt_def rep_def colon_def
  ymd_date_def dot_date_def labelled_def run_def ngroups_def group_def groups_def

lemma site_text_a: "get_text_from_image site (base_url @ u ''/a.png'') s
   = (Inr [20027, 21150, 65306, 65], s\<lparr>requested := requested s @ [base_url @ u ''/a.png'']\<rparr>)"
  by (simp add: get_text_from_image_def get_text_try_def requests_get_def site_def
        site_net_def base_url_def u_def)

lemma site_text_b: "get_text_from_image site (base_url @ u ''/b.png'') s
   = (Inr [], s\<lparr>requested := requested s @ [base_url @ u ''/b.png'']\<rparr>)"
  by (simp add: get_text_from_image_def get_text_try_def requests_get_def site_def
        site_net_def base_url_def u_def)

lemma site_text_c: "get_text_from_image site (u ''http://c/c.png'') s
   = (Inr [66], s\<lparr>requested := requested s @ [u ''http://c/c.png'']\<rparr>)"
  by (simp add: get_text_from_image_def get_text_try_def requests_get_def site_def
        site_net_def base_url_def u_def)

lemma site_imgs:
  "img_loop site [Some (u ''a.png''), None, Some (u ''/b.png''), Some (u ''http://c/c.png'')] [] s
   = (Inr [10, 20027, 21150, 65306, 65, 10, 66],
      s\<lparr>requested := requested s @ [base_url @ u ''/a.png'', base_url @ u ''/b.png'',
                                       u ''http://c/c.png'']\<rparr>)"
proof -
  have 1: "img_source (Some (u ''a.png'')) = Some (base_url @ u ''/a.png'')"
    and 2: "img_source None = None"
    and 3: "img_source (Some (u ''/b.png'')) = Some (base_url @ u ''/b.png'')"
    and 4: "img_source (Some (u ''http://c/c.png'')) = Some (u ''http://c/c.png'')"
    by (simp_all add: img_source_def startswith_def lstrip_slash_def u_def)
  show ?thesis
    by (simp add: img_loop_Cons 1 2 3 4 site_text_a site_text_b site_text_c)
qed

lemma site_fields:
  "date_loop ascii date_patterns [10, 20027, 21150, 65306, 65, 10, 66] = None"
  "field_loop ascii requirements_patterns [10, 20027, 21150, 65306, 65, 10, 66] = Inr None"
  "field_loop ascii organizer_patterns [10, 20027, 21150, 65306, 65, 10, 66] = Inr (Some [65])"
  "field_loop ascii undertaker_patterns [10, 20027, 21150, 65306, 65, 10, 66] = Inr None"
  by (simp_all add: date_patterns_def requirements_patterns_def organizer_patterns_def
        undertaker_patterns_def regex_defs ascii_def)

lemma site_page:
  "parse_news_content site (base_url @ u ''/n1.html'') s
   = (Inr (Some \<lparr>c_content = [10, 20027, 21150, 65306, 65, 10, 66],
                  c_date_info = no_date_info, c_requirements = no_requirements,
                  c_organizer = [65], c_undertaker = no_undertaker\<rparr>),
      s\<lparr>requested := requested s @ [base_url @ u ''/n1.html'', base_url @ u ''/a.png'',
                                       base_url @ u ''/b.png'', u ''http://c/c.png'']\<rparr>)"
proof -
  have g: "requests_get site (base_url @ u ''/n1.html'') s
           = (Inr \<lparr>status_code = 200, body = [1]\<rparr>,
              s\<lparr>requested := requested s @ [base_url @ u ''/n1.html'']\<rparr>)"
    by (simp add: requests_get_def site_def site_net_def base_url_def u_def)
  have i: "soup_img_src site [Suc 0]
           = Inr [Some (u ''a.png''), None, Some (u ''/b.png''), Some (u ''http://c/c.png'')]"
    and un: "uni site = ascii"
    by (simp_all add: site_def)
  show ?thesis
    by (simp add: parse_news_content_def parse_news_try_def g i un site_imgs site_fields
          or_else_def)
qed

lemma site_page4:
  "parse_news_content site (u ''http://x/n4'') s
   = (Inr None, s\<lparr>requested := requested s @ [u ''http://x/n4'']\<rparr>)"
  by (simp add: parse_news_content_def parse_news_try_def requests_get_def site_def
        site_net_def base_url_def u_def)

lemma site_keywords:
  "has_keyword [27604, 36187]" "\<not> has_keyword (u ''notice'')" "has_keyword [24449, 38598]"
  by (simp_all add: has_keyword_def competition_keywords_def startswith_def u_def)

lemma site_urls:
  "absolute_url (u ''/n1.html'') = base_url @ u ''/n1.html''"
  "absolute_url (u ''n3.html'') = base_url @ u ''/n3.html''"
  "absolute_url (u ''http://x/n4'') = u ''http://x/n4''"
  by (simp_all add: absolute_url_def startswith_def u_def)

lemma site_fetch:
  "fetch_news_urls site start
   = (Inr [site_entry1, site_entry3, site_entry4],
      start\<lparr>requested := [base_url @ u ''/home/newss.html'', base_url @ u ''/n1.html'',
          base_url @ u ''/a.png'', base_url @ u ''/b.png'', u ''http://c/c.png'',
          u ''http://x/n4'']\<rparr>)"
proof -
  have h1: "net site (length (requested start)) (base_url @ u ''/home/newss.html'')
            = Inr \<lparr>status_code = 200, body = [0]\<rparr>"
    by (simp add: site_def site_net_def)
  have h2: "soup_list_news site (body \<lparr>status_code = 200, body = [0]\<rparr>) = Inr (Some site_items)"
    by (simp add: site_def)
  show ?thesis
    unfolding fetch_news_urls_listed [OF h1 h2]
    by (simp add: site_items_def news_item_def site_keywords site_urls site_page site_page4
          site_entry1_def site_entry3_def site_entry4_def bare_def start_def Let_def)
qed


subsubsection \<open>Relevant entries and entries with content\<close>

lemma parse_news_content_requests:
  "\<exists>rs. requested (snd (parse_news_content w a s)) = requested s @ a # rs"
proof -
  define s1 where "s1 = s\<lparr>requested := requested s @ [a]\<rparr>"
  have g: "requests_get w a s = (net w (length (requested s)) a, s1)"
    by (simp add: requests_get_def s1_def)
  have "snd (parse_news_try w a s) = s1
        \<or> (\<exists>img_tags. snd (parse_news_try w a s) = snd (img_loop w img_tags [] s1))"
    unfolding parse_news_try_def g
    by (auto split: sum.splits prod.splits) (metis snd_conv)+
  then have "more_requests s1 (snd (parse_news_try w a s))"
    using img_loop_more more_requests_refl by metis
  then obtain rs where "snd (parse_news_try w a s) = s1\<lparr>requested := requested s1 @ rs\<rparr>"
    unfolding more_requests_def by blast
  then have "requested (snd (parse_news_content w a s)) = requested s @ a # rs"
    by (simp add: parse_news_content_snd s1_def)
  then show ?thesis ..
qed

lemma fetch_news_urls_all:
  assumes "\<And>idx item s e s'. news_item w idx item s = (Inr (Some e), s') \<Longrightarrow> P e"
      and "fst (fetch_news_urls w s) = Inr news"
  shows "\<forall>e \<in> set news. P e"
proof -
  define a where "a = base_url @ u ''/home/newss.html''"
  define s1 where "s1 = s\<lparr>requested := requested s @ [a]\<rparr>"
  have g: "requests_get w a s = (net w (length (requested s)) a, s1)"
    by (simp add: requests_get_def s1_def)
  have "fst (fetch_news_try w s) = Inr news \<or> news = []"
    using assms(2) by (auto simp: fetch_news_urls_def split: prod.splits sum.splits)
  then have "news = [] \<or> (\<exists>news_items. fst (items_loop w 1 news_items [] s1) = Inr news)"
    unfolding fetch_news_try_def a_def [symmetric] g
    by (auto split: sum.splits option.splits)
  then show ?thesis
  proof
    assume "news = []"
    then show ?thesis by simp
  next
    assume "\<exists>news_items. fst (items_loop w 1 news_items [] s1) = Inr news"
    then obtain news_items where "fst (items_loop w 1 news_items [] s1) = Inr news" ..
    with items_loop_all [of w P "[]" 1 news_items s1 news] assms(1) show ?thesis
      by simp
  qed
qed

lemma news_item_irrelevant:
  assumes "h3 link = Some t" and "\<not> has_keyword t"
  shows "news_item w idx (Some link) s
         = (Inr (Some (bare idx t (case em link of None \<Rightarrow> [] | Some d \<Rightarrow> d)
                         (absolute_url (case href link of None \<Rightarrow> [] | Some h \<Rightarrow> h))
                         False)), s)"
  using assms by (simp add: news_item_def Let_def bare_def)

lemma run_task_filter:
  assumes "\<forall>e \<in> set news. is_competition e = has_keyword (title e)"
      and "fst (fetch_news_urls w s) = Inr news"
  shows "run_task w s =
           competition_loop w (filter (\<lambda>c. has_keyword (title c) \<and> content c \<noteq> None) news)
             (snd (fetch_news_urls w s))"
proof -
  have f: "fetch_news_urls w s = (Inr news, snd (fetch_news_urls w s))"
    using assms(2) by (simp add: prod_eq_iff)
  have "filter (\<lambda>c. content c \<noteq> None) (filter is_competition news)
        = filter (\<lambda>c. has_keyword (title c) \<and> content c \<noteq> None) news"
    using assms(1) by (induction news) auto
  then show ?thesis
    unfolding run_task_def
    by (subst f) (simp add: competition_loop_filter [of w "filter is_competition news"])
qed

lemma run_task_content:
  assumes "fst (fetch_news_urls w s) = Inr news"
  shows "run_task w s =
           competition_loop w (filter (\<lambda>c. is_competition c \<and> content c \<noteq> None) news)
             (snd (fetch_news_urls w s))"
proof -
  have f: "fetch_news_urls w s = (Inr news, snd (fetch_news_urls w s))"
    using assms by (simp add: prod_eq_iff)
  have "filter (\<lambda>c. content c \<noteq> None) (filter is_competition news)
        = filter (\<lambda>c. is_competition c \<and> content c \<noteq> None) news"
    by (induction news) auto
  then show ?thesis
    unfolding run_task_def
    by (subst f) (simp add: competition_loop_filter [of w "filter is_competition news"])
qed

lemma news_item_failed:
  assumes "h3 link = Some t" and "has_keyword t"
      and "fst (parse_news_content w
                  (absolute_url (case href link of None \<Rightarrow> [] | Some h \<Rightarrow> h)) s) = Inr None"
  shows "fst (news_item w idx (Some link) s)
         = Inr (Some (bare idx t (case em link of None \<Rightarrow> [] | Some d \<Rightarrow> d)
                        (absolute_url (case href link of None \<Rightarrow> [] | Some h \<Rightarrow> h)) True))"
  using assms
  by (cases "parse_news_content w
               (absolute_url (case href link of None \<Rightarrow> [] | Some h \<Rightarrow> h)) s")
     (simp add: news_item_def Let_def bare_def)

lemma lonely_fetch:
  "fst (fetch_news_urls lonely start)
   = Inr [bare 1 [27604, 36187] [] (base_url @ u ''/n1.html'') True]"
proof -
  have h1: "net lonely (length (requested start)) (base_url @ u ''/home/newss.html'')
            = Inr \<lparr>status_code = 200, body = [0]\<rparr>"
    by (simp add: lonely_def offline_def start_def)
  have h2: "soup_list_news lonely (body \<lparr>status_code = 200, body = [0]\<rparr>)
            = Inr (Some [Some \<lparr>h3 = Some [27604, 36187], em = None,
                               href = Some (u ''/n1.html'')\<rparr>])"
    by (simp add: lonely_def offline_def)
  have p: "parse_news_content lonely (base_url @ u ''/n1.html'')
             (start\<lparr>requested := requested start @ [base_url @ u ''/home/newss.html'']\<rparr>)
           = (Inr None, start\<lparr>requested := requested start
                 @ [base_url @ u ''/home/newss.html'', base_url @ u ''/n1.html'']\<rparr>)"
    by (simp add: parse_news_content_def parse_news_try_def requests_get_def lonely_def
          offline_def start_def)
  show ?thesis
    unfolding fetch_news_urls_listed [OF h1 h2]
    by (simp add: news_item_def site_keywords site_urls p Let_def bare_def)
qed


subsubsection \<open>Texts of the images\<close>

lemma get_text_from_image_failed:
  assumes "(\<exists>e. fst (get_text_try w src s) = Inl e)
           \<or> (\<exists>r. net w (length (requested s)) src = Inr r \<and> status_code r \<noteq> 200)"
  shows "fst (get_text_from_image w src s) = Inr []"
  using assms
  by (auto simp: get_text_from_image_def get_text_try_def requests_get_def
           split: sum.splits prod.splits option.splits list.splits)

lemma image_texts_length:
  "length (image_texts w img_tags s) = length (filter (\<lambda>i. img_source i \<noteq> None) img_tags)"
proof (induction img_tags arbitrary: s)
  case Nil
  show ?case by simp
next
  case (Cons img img_tags)
  show ?case
  proof (cases "img_source img")
    case None
    with Cons.IH show ?thesis by simp
  next
    case (Some src)
    obtain t where "fst (get_text_from_image w src s) = Inr t"
      using get_text_from_image_Inr by blast
    with Some Cons.IH show ?thesis by simp
  qed
qed

lemma parse_news_try_content:
  assumes "parse_news_try w a s = (Inr info, s')"
  shows "\<exists>r img_tags. net w (length (requested s)) a = Inr r
           \<and> soup_img_src w (body r) = Inr img_tags
           \<and> fst (img_loop w img_tags [] (s\<lparr>requested := requested s @ [a]\<rparr>))
               = Inr (c_content info)"
  using assms
  by (auto simp: parse_news_try_def requests_get_def split: sum.splits prod.splits)

lemma site_image_texts:
  "image_texts site [Some (u ''a.png''), None, Some (u ''/b.png''), Some (u ''http://c/c.png'')] s
   = [[20027, 21150, 65306, 65], [], [66]]"
proof -
  have 1: "img_source (Some (u ''a.png'')) = Some (base_url @ u ''/a.png'')"
    and 2: "img_source None = None"
    and 3: "img_source (Some (u ''/b.png'')) = Some (base_url @ u ''/b.png'')"
    and 4: "img_source (Some (u ''http://c/c.png'')) = Some (u ''http://c/c.png'')"
    by (simp_all add: img_source_def startswith_def lstrip_slash_def u_def)
  show ?thesis
    by (simp add: 1 2 3 4 site_text_a site_text_b site_text_c)
qed

subsubsection \<open>Matches and their groups\<close>

lemma run_le_length: "run U a s \<le> length s"
proof -
  have "length (takeWhile (accepts U (cl a)) s) \<le> length s"
    by (rule length_takeWhile_le)
  then show ?thesis
    by (auto simp: run_def Let_def split: option.splits)
qed

lemma ways_pieces:
  "m \<in> set (ways U p s) \<Longrightarrow> list_all2 (\<lambda>a piece. lo a \<le> length piece) p m"
proof (induction p arbitrary: s m)
  case Nil
  then show ?case by simp
next
  case (Cons a as)
  from Cons.prems obtain n r where n: "lo a \<le> n" "n \<le> run U a s"
    and r: "r \<in> set (ways U as (drop n s))" and m: "m = take n s # r"
    by auto
  from n(2) run_le_length [of U a s] have "length (take n s) = n"
    by simp
  with n(1) Cons.IH [OF r] m show ?case by simp
qed

lemma re_search_ways: "re_search U p t = Some m \<Longrightarrow> \<exists>s. m \<in> set (ways U p s)"
proof (induction t)
  case Nil
  then have "m \<in> set (ways U p [])"
    by (cases "ways U p []") auto
  then show ?case ..
next
  case (Cons c cs)
  show ?case
  proof (cases "ways U p (c # cs)")
    case Nil
    with Cons show ?thesis by simp
  next
    case (Cons m' ms)
    with Cons.prems have "m \<in> set (ways U p (c # cs))" by simp
    then show ?thesis ..
  qed
qed

lemma group_Cons:
  "group (a # p) (piece # m) g = (if grp a = g then piece else []) @ group p m g"
  by (simp add: group_def)

lemma group_not_empty:
  assumes "list_all2 (\<lambda>a piece. lo a \<le> length piece) p m"
      and "\<exists>a \<in> set p. grp a = g \<and> 1 \<le> lo a"
  shows "group p m g \<noteq> []"
  using assms
proof (induction rule: list_all2_induct)
  case Nil
  then show ?case by simp
next
  case (Cons a p piece m)
  show ?case
  proof (cases "grp a = g \<and> 1 \<le> lo a")
    case True
    with Cons.hyps(1) have "piece \<noteq> []" by auto
    with True show ?thesis by (simp add: group_Cons)
  next
    case False
    with Cons.prems have "\<exists>a \<in> set p. grp a = g \<and> 1 \<le> lo a" by auto
    from Cons.IH [OF this] show ?thesis by (simp add: group_Cons)
  qed
qed

text \<open>A group that holds an item repeated at least once is never empty in a match.\<close>

lemma matched_group_not_empty:
  assumes "re_search U p t = Some m" and "\<exists>a \<in> set p. grp a = g \<and> 1 \<le> lo a"
  shows "group p m g \<noteq> []"
proof -
  from re_search_ways [OF assms(1)] obtain s where "m \<in> set (ways U p s)" ..
  from group_not_empty [OF ways_pieces [OF this] assms(2)] show ?thesis .
qed

lemma length_groups: "length (groups p m) = ngroups p"
  by (simp add: groups_def)

lemma date_patterns_groups:
  "\<forall>p \<in> set date_patterns. (ngroups p = 1 \<or> ngroups p = 2)
      \<and> (\<exists>a \<in> set p. grp a = 1 \<and> 1 \<le> lo a)"
  by (simp add: date_patterns_def lit_def once_def star_def plus1_def opt_def rep_def
        colon_def ymd_date_def dot_date_def ngroups_def)

lemma labelled_groups:
  "ngroups (labelled l) = 1 \<and> (\<exists>a \<in> set (labelled l). grp a = 1 \<and> 1 \<le> lo a)"
proof -
  have "fold max (map grp (lit l)) 0 = 0"
    by (induction l) (simp_all add: lit_def)
  then show ?thesis
    by (auto simp: labelled_def ngroups_def once_def star_def plus1_def)
qed

lemma field_patterns_groups:
  "\<forall>p \<in> set requirements_patterns \<union> set organizer_patterns \<union> set undertaker_patterns.
      ngroups p = 1 \<and> (\<exists>a \<in> set p. grp a = 1 \<and> 1 \<le> lo a)"
  using labelled_groups
  by (auto simp: requirements_patterns_def organizer_patterns_def undertaker_patterns_def)

subsubsection \<open>The loops over the patterns\<close>

lemma first_match_Nil: "first_match U [] t = None"
  by (simp add: first_match_def)

lemma first_match_Cons:
  "first_match U (p # ps) t =
     (case re_search U p t of None \<Rightarrow> first_match U ps t | Some m \<Rightarrow> Some (captured p m))"
  by (simp add: first_match_def split: option.splits)

lemma date_loop_first_match:
  "\<forall>p \<in> set family. ngroups p = 1 \<or> ngroups p = 2 \<Longrightarrow>
     date_loop U family t = first_match U family t"
proof (induction family)
  case Nil
  show ?case by (simp add: first_match_Nil)
next
  case (Cons p ps)
  show ?case
  proof (cases "re_search U p t")
    case None
    with Cons show ?thesis by (simp add: first_match_Cons)
  next
    case (Some m)
    from Cons.prems have "ngroups p = 1 \<or> ngroups p = 2" by simp
    with Some show ?thesis
      by (auto simp: first_match_Cons length_groups captured_def)
  qed
qed

lemma field_loop_first_match:
  "\<forall>p \<in> set family. ngroups p = 1 \<Longrightarrow>
     field_loop U family t = Inr (first_match U family t)"
proof (induction family)
  case Nil
  show ?case by (simp add: first_match_Nil)
next
  case (Cons p ps)
  show ?case
  proof (cases "re_search U p t")
    case None
    with Cons show ?thesis by (simp add: first_match_Cons)
  next
    case (Some m)
    from Cons.prems have "ngroups p = 1" by simp
    with Some show ?thesis
      by (simp add: first_match_Cons captured_def)
  qed
qed

lemma first_match_later:
  assumes "\<forall>q \<in> set ps. re_search U q t = None" and "re_search U p t = Some m"
  shows "first_match U (ps @ p # qs) t = Some (captured p m)"
  using assms by (induction ps) (simp_all add: first_match_Cons)

lemma date_loop_later:
  assumes "\<forall>q \<in> set ps. re_search U q t = None" and "re_search U p t = Some m"
  shows "date_loop U (ps @ p # qs) t = date_loop U (ps @ [p]) t"
  using assms by (induction ps) simp_all

lemma field_loop_later:
  assumes "\<forall>q \<in> set ps. re_search U q t = None" and "re_search U p t = Some m"
  shows "field_loop U (ps @ p # qs) t = field_loop U (ps @ [p]) t"
  using assms by (induction ps) simp_all

lemma first_match_not_empty:
  assumes "\<forall>p \<in> set family. \<exists>a \<in> set p. grp a = 1 \<and> 1 \<le> lo a"
      and "first_match U family t = Some v"
  shows "v \<noteq> []"
  using assms
proof (induction family)
  case Nil
  then show ?case by (simp add: first_match_Nil)
next
  case (Cons p ps)
  show ?case
  proof (cases "re_search U p t")
    case None
    with Cons show ?thesis by (simp add: first_match_Cons)
  next
    case (Some m)
    from Cons.prems(1) have "\<exists>a \<in> set p. grp a = 1 \<and> 1 \<le> lo a" by simp
    from matched_group_not_empty [OF Some this] have "group p m 1 \<noteq> []" .
    moreover from Some Cons.prems(2) have "v = captured p m"
      by (simp add: first_match_Cons)
    ultimately show ?thesis by (simp add: captured_def)
  qed
qed

lemma or_else_field_value:
  assumes "\<forall>p \<in> set family. \<exists>a \<in> set p. grp a = 1 \<and> 1 \<le> lo a"
  shows "or_else (first_match U family t) sentinel = field_value U family sentinel t"
proof (cases "first_match U family t")
  case None
  then show ?thesis by (simp add: or_else_def field_value_def)
next
  case (Some v)
  from first_match_not_empty [OF assms Some] Some show ?thesis
    by (simp add: or_else_def field_value_def)
qed

lemma family_loops:
  "date_loop U date_patterns t = first_match U date_patterns t"
  "field_loop U requirements_patterns t = Inr (first_match U requirements_patterns t)"
  "field_loop U organizer_patterns t = Inr (first_match U organizer_patterns t)"
  "field_loop U undertaker_patterns t = Inr (first_match U undertaker_patterns t)"
  using date_patterns_groups field_patterns_groups
  by (simp_all add: date_loop_first_match field_loop_first_match)

lemma family_values:
  "or_else (first_match U date_patterns t) no_date_info
     = field_value U date_patterns no_date_info t"
  "or_else (first_match U requirements_patterns t) no_requirements
     = field_value U requirements_patterns no_requirements t"
  "or_else (first_match U organizer_patterns t) no_organizer
     = field_value U organizer_patterns no_organizer t"
  "or_else (first_match U undertaker_patterns t) no_undertaker
     = field_value U undertaker_patterns no_undertaker t"
  using date_patterns_groups field_patterns_groups
  by (simp_all add: or_else_field_value)

subsubsection \<open>The fields of a result\<close>

lemma parse_news_try_fields:
  assumes "parse_news_try w a s = (Inr info, s')"
  shows "c_date_info info = field_value (uni w) date_patterns no_date_info (c_content info)
     \<and> c_requirements info
         = field_value (uni w) requirements_patterns no_requirements (c_content info)
     \<and> c_organizer info = field_value (uni w) organizer_patterns no_organizer (c_content info)
     \<and> c_undertaker info
         = field_value (uni w) undertaker_patterns no_undertaker (c_content info)"
  using assms
  by (auto simp: parse_news_try_def family_loops family_values
           split: prod.splits sum.splits)

lemma parse_news_content_Some:
  "parse_news_content w a s = (Inr (Some info), s') \<longleftrightarrow> parse_news_try w a s = (Inr info, s')"
  by (auto simp: parse_news_content_def split: prod.splits sum.splits)

lemma parse_news_content_None:
  "fst (parse_news_content w a s) = Inr None \<longleftrightarrow> (\<exists>e. fst (parse_news_try w a s) = Inl e)"
  by (auto simp: parse_news_content_def split: prod.splits sum.splits)

lemma news_item_cases:
  assumes "news_item w idx item s = (Inr (Some e), s')"
  shows "(content e = None \<and> date_info e = None \<and> requirements e = None
          \<and> organizer e = None \<and> undertaker e = None)
       \<or> (\<exists>a info. parse_news_content w a s = (Inr (Some info), s')
             \<and> content e = Some (c_content info) \<and> date_info e = Some (c_date_info info)
             \<and> requirements e = Some (c_requirements info)
             \<and> organizer e = Some (c_organizer info)
             \<and> undertaker e = Some (c_undertaker info))"
proof (cases item)
  case None
  with assms show ?thesis by (simp add: news_item_def)
next
  case (Some link)
  show ?thesis
  proof (cases "h3 link")
    case None
    with assms Some show ?thesis by (simp add: news_item_def)
  next
    case t: (Some ttl)
    define a where "a = absolute_url (case href link of None \<Rightarrow> [] | Some h \<Rightarrow> h)"
    show ?thesis
    proof (cases "has_keyword ttl")
      case False
      with assms Some t have "content e = None \<and> date_info e = None \<and> requirements e = None
          \<and> organizer e = None \<and> undertaker e = None"
        by (auto simp: news_item_def Let_def)
      then show ?thesis ..
    next
      case True
      obtain r s1 where p: "parse_news_content w a s = (r, s1)"
        by (cases "parse_news_content w a s")
      show ?thesis
      proof (cases r)
        case (Inl x)
        with assms Some t True p show ?thesis
          by (simp add: news_item_def Let_def a_def)
      next
        case (Inr x)
        show ?thesis
        proof (cases x)
          case None
          with assms Some t True p Inr
          have "content e = None \<and> date_info e = None \<and> requirements e = None
                \<and> organizer e = None \<and> undertaker e = None"
            by (auto simp: news_item_def Let_def a_def)
          then show ?thesis ..
        next
          case info: (Some info)
          with assms Some t True p Inr
          have "parse_news_content w a s = (Inr (Some info), s')
             \<and> content e = Some (c_content info) \<and> date_info e = Some (c_date_info info)
             \<and> requirements e = Some (c_requirements info)
             \<and> organizer e = Some (c_organizer info)
             \<and> undertaker e = Some (c_undertaker info)"
            by (auto simp: news_item_def Let_def a_def)
          then show ?thesis by blast
        qed
      qed
    qed
  qed
qed

lemma news_item_fields:
  assumes "news_item w idx item s = (Inr (Some e), s')"
  shows "fields_follow_content (uni w) e"
  using news_item_cases [OF assms]
proof
  assume "content e = None \<and> date_info e = None \<and> requirements e = None
          \<and> organizer e = None \<and> undertaker e = None"
  then show ?thesis by (simp add: fields_follow_content_def)
next
  assume "\<exists>a info. parse_news_content w a s = (Inr (Some info), s')
             \<and> content e = Some (c_content info) \<and> date_info e = Some (c_date_info info)
             \<and> requirements e = Some (c_requirements info)
             \<and> organizer e = Some (c_organizer info)
             \<and> undertaker e = Some (c_undertaker info)"
  then obtain a info where p: "parse_news_content w a s = (Inr (Some info), s')"
    and f: "content e = Some (c_content info)" "date_info e = Some (c_date_info info)"
      "requirements e = Some (c_requirements info)" "organizer e = Some (c_organizer info)"
      "undertaker e = Some (c_undertaker info)"
    by blast
  from p have "parse_news_try w a s = (Inr info, s')"
    by (simp add: parse_news_content_Some)
  from parse_news_try_fields [OF this] f show ?thesis
    by (simp add: fields_follow_content_def)
qed

lemma first_match_origin:
  "first_match U family t = Some v \<Longrightarrow>
     \<exists>p \<in> set family. \<exists>m. re_search U p t = Some m \<and> v = captured p m"
proof (induction family)
  case Nil
  then show ?case by (simp add: first_match_Nil)
next
  case (Cons p ps)
  then show ?case
    by (cases "re_search U p t") (auto simp: first_match_Cons)
qed

lemma field_value_origin:
  "field_value U family sentinel t = sentinel
   \<or> (\<exists>p \<in> set family. \<exists>m. re_search U p t = Some m
         \<and> field_value U family sentinel t = captured p m)"
proof (cases "first_match U family t")
  case None
  then show ?thesis by (simp add: field_value_def)
next
  case (Some v)
  from first_match_origin [OF this] Some show ?thesis
    by (simp add: field_value_def)
qed

subsubsection \<open>Passes, and the passes of the scheduler\<close>

lemma site_run:
  "fst (run_task site start) = Inr ()"
  "db (snd (run_task site start)) = [str_nat 1 \<mapsto> row_of site_entry1 0]"
  "outbox (snd (run_task site start)) = [(7, message_of site_entry1)]"
proof -
  have f: "sqlite_fault site = (\<lambda>k. None)" and b: "bot_send site = (\<lambda>c m. None)"
    and d: "during_delivery site = (\<lambda>k. [])"
    by (simp_all add: site_def)
  have e: "is_competition site_entry1" "\<not> is_competition site_entry3"
    "is_competition site_entry4" "content site_entry1 \<noteq> None" "content site_entry4 = None"
    "index site_entry1 = 1"
    by (simp_all add: site_entry1_def site_entry3_def site_entry4_def bare_def)
  have st: "db start = Map.empty" "now start = 0" "chat_ids start = [7]" "db_calls start = 0"
    "outbox start = []" "deliveries start = 0"
    by (simp_all add: start_def)
  have r: "run_task site start
     = (Inr (), start\<lparr>requested := [base_url @ u ''/home/newss.html'', base_url @ u ''/n1.html'',
          base_url @ u ''/a.png'', base_url @ u ''/b.png'', u ''http://c/c.png'',
          u ''http://x/n4''],
        db_calls := 1,
        db := [str_nat 1 \<mapsto> row_of site_entry1 0],
        outbox := [(7, message_of site_entry1)],
        deliveries := 1\<rparr>)"
    by (simp add: run_task_def site_fetch e save_competition_def Let_def f b d push_message_def
          send_message_def deliver_def handle_commands_def st)
  show "fst (run_task site start) = Inr ()"
    "db (snd (run_task site start)) = [str_nat 1 \<mapsto> row_of site_entry1 0]"
    "outbox (snd (run_task site start)) = [(7, message_of site_entry1)]"
    by (simp_all add: r)
qed

lemma lonely_run:
  "fst (run_task lonely start) = Inr ()"
  "outbox (snd (run_task lonely start)) = []"
  "db (snd (run_task lonely start)) = db start"
proof -
  have r: "run_task lonely start = (Inr (), snd (fetch_news_urls lonely start))"
    unfolding run_task_content [OF lonely_fetch] by (simp add: bare_def)
  have same: "outbox (snd (fetch_news_urls lonely start)) = outbox start"
    "db (snd (fetch_news_urls lonely start)) = db start"
    using more_requests_same [OF fetch_news_urls_more [of start lonely]] by simp_all
  show "fst (run_task lonely start) = Inr ()"
    "outbox (snd (run_task lonely start)) = []"
    "db (snd (run_task lonely start)) = db start"
    by (simp_all add: r same) (simp add: start_def)
qed

lemma run_task_raises:
  assumes "fst (run_task w s) = Inl e"
  shows "(\<exists>k. sqlite_fault w k = Some e \<and> e \<noteq> IntegrityError)
         \<or> (e = RuntimeError \<and> (\<exists>k. during_delivery w k \<noteq> []))"
proof -
  obtain news where n: "fst (fetch_news_urls w s) = Inr news"
    using fetch_news_urls_Inr by blast
  from assms show ?thesis
    unfolding run_task_content [OF n] by (rule competition_loop_raises)
qed

lemma run_task_now: "now (snd (run_task w s)) = now s"
proof -
  obtain news where n: "fst (fetch_news_urls w s) = Inr news"
    using fetch_news_urls_Inr by blast
  let ?cs = "filter (\<lambda>c. is_competition c \<and> content c \<noteq> None) news"
  let ?s1 = "snd (fetch_news_urls w s)"
  have "competition_loop w ?cs ?s1 = (fst (run_task w s), snd (run_task w s))"
    by (simp add: run_task_content [OF n])
  from competition_loop_effects [OF this] have "now (snd (run_task w s)) = now ?s1"
    by blast
  also have "\<dots> = now s"
    using more_requests_same [OF fetch_news_urls_more [of s w]] by simp
  finally show ?thesis .
qed

lemma sleep_now: "now (sleep w s) = now s + 12 * 3600"
  by (simp add: sleep_def handle_commands_same)

lemma scheduled_task_raise:
  assumes "fst (run_task w s) = Inl e"
  shows "scheduled_task w (Suc n) s = (Some e, snd (run_task w s))"
  using assms by (cases "run_task w s") simp

lemma scheduled_task_next:
  assumes "fst (run_task w s) = Inr ok"
  shows "scheduled_task w (Suc n) s = scheduled_task w n (sleep w (snd (run_task w s)))"
  using assms by (cases "run_task w s") simp

lemma scheduled_task_runs:
  assumes "\<forall>k e. sqlite_fault w k = Some e \<longrightarrow> e = IntegrityError"
      and "\<forall>k. during_delivery w k = []"
  shows "fst (scheduled_task w n s) = None
         \<and> now (snd (scheduled_task w n s)) = now s + n * (12 * 3600)"
proof (induction n arbitrary: s)
  case 0
  show ?case by simp
next
  case (Suc n)
  have "\<exists>ok. fst (run_task w s) = Inr ok"
  proof (cases "fst (run_task w s)")
    case (Inl e)
    from run_task_raises [OF this] assms show ?thesis by auto
  next
    case (Inr ok)
    then show ?thesis by simp
  qed
  then obtain ok where "fst (run_task w s) = Inr ok" ..
  from scheduled_task_next [OF this] Suc.IH [of "sleep w (snd (run_task w s))"]
  show ?case by (simp add: sleep_now run_task_now)
qed

text \<open>
  A site whose listing has one competition and whose detail page has no image: the
  entry has the empty text and the four sentinels.
\<close>

lemma plain_fetch:
  assumes "net w = (\<lambda>k a. Inr \<lparr>status_code = 200, body = [0]\<rparr>)"
      and "soup_list_news w = (\<lambda>b. Inr (Some [Some \<lparr>h3 = Some [27604, 36187], em = None,
                                                      href = Some (u ''/n1.html'')\<rparr>]))"
      and "soup_img_src w = (\<lambda>b. Inr [])" and "uni w = ascii"
  shows "fst (fetch_news_urls w start)
        = Inr [\<lparr>index = 1, title = [27604, 36187], date = [], url = base_url @ u ''/n1.html'',
                is_competition = True, content = Some [], date_info = Some no_date_info,
                requirements = Some no_requirements, organizer = Some no_organizer,
                undertaker = Some no_undertaker\<rparr>]"
proof -
  have h1: "net w (length (requested start)) (base_url @ u ''/home/newss.html'')
            = Inr \<lparr>status_code = 200, body = [0]\<rparr>"
    by (simp add: assms)
  have h2: "soup_list_news w (body \<lparr>status_code = 200, body = [0]\<rparr>)
            = Inr (Some [Some \<lparr>h3 = Some [27604, 36187], em = None,
                               href = Some (u ''/n1.html'')\<rparr>])"
    by (simp add: assms)
  have f: "date_loop ascii date_patterns [] = None"
    "field_loop ascii requirements_patterns [] = Inr None"
    "field_loop ascii organizer_patterns [] = Inr None"
    "field_loop ascii undertaker_patterns [] = Inr None"
    by (simp_all add: date_patterns_def requirements_patterns_def organizer_patterns_def
          undertaker_patterns_def regex_defs ascii_def)
  have p: "fst (parse_news_content w a s)
           = Inr (Some \<lparr>c_content = [], c_date_info = no_date_info,
                          c_requirements = no_requirements, c_organizer = no_organizer,
                          c_undertaker = no_undertaker\<rparr>)" for a s
    by (simp add: parse_news_content_def parse_news_try_def requests_get_def f or_else_def
          assms)
  show ?thesis
    unfolding fetch_news_urls_listed [OF h1 h2]
    by (cases "parse_news_content w (base_url @ u ''/n1.html'')
                 (start\<lparr>requested := requested start @ [base_url @ u ''/home/newss.html'']\<rparr>)")
       (use p [of "base_url @ u ''/n1.html''"
                  "start\<lparr>requested := requested start @ [base_url @ u ''/home/newss.html'']\<rparr>"]
        in \<open>simp add: news_item_def site_keywords site_urls Let_def\<close>)
qed

lemma locked_run: "fst (run_task locked start) = Inl OperationalError"
proof -
  have sq: "sqlite_fault locked = (\<lambda>k. Some OperationalError)"
    by (simp add: locked_def lonely_def offline_def)
  have n: "fst (fetch_news_urls locked start)
        = Inr [\<lparr>index = 1, title = [27604, 36187], date = [], url = base_url @ u ''/n1.html'',
                is_competition = True, content = Some [], date_info = Some no_date_info,
                requirements = Some no_requirements, organizer = Some no_organizer,
                undertaker = Some no_undertaker\<rparr>]"
    by (rule plain_fetch) (simp_all add: locked_def lonely_def offline_def)
  show ?thesis
    unfolding run_task_content [OF n]
    by (simp add: save_competition_def Let_def sq)
qed

lemma joining_run: "fst (run_task joining start) = Inl RuntimeError"
proof -
  have sq: "sqlite_fault joining = (\<lambda>k. None)" and b: "bot_send joining = (\<lambda>c m. None)"
    and d: "during_delivery joining = (\<lambda>k. [Subscribe 8])"
    by (simp_all add: joining_def lonely_def offline_def)
  have n: "fst (fetch_news_urls joining start)
        = Inr [\<lparr>index = 1, title = [27604, 36187], date = [], url = base_url @ u ''/n1.html'',
                is_competition = True, content = Some [], date_info = Some no_date_info,
                requirements = Some no_requirements, organizer = Some no_organizer,
                undertaker = Some no_undertaker\<rparr>]"
    by (rule plain_fetch) (simp_all add: joining_def lonely_def offline_def)
  have st: "db (snd (fetch_news_urls joining start)) = db start"
    "chat_ids (snd (fetch_news_urls joining start)) = chat_ids start"
    using more_requests_same [OF fetch_news_urls_more [of start joining]] by simp_all
  have s0: "db start = Map.empty" "chat_ids start = [7]"
    by (simp_all add: start_def)
  show ?thesis
    unfolding run_task_content [OF n]
    by (simp add: save_competition_def Let_def sq b d push_message_def send_message_def
          deliver_def handle_commands_def st s0)
qed
subsection \<open>Text of an image\<close>

text \<open>
  C10. \<open>get_text_from_image\<close> returns a string for every image URL and never raises; the
  string is empty when the download is answered with a status other than 200, and
  when any step of the \<open>try\<close> block (download, decoding, recognition, reading the
  result) raises.
\<close>

theorem get_text_from_image_total:
  "(\<exists>t. fst (get_text_from_image w image_url s) = Inr t)
   \<and> ((\<exists>r. net w (length (requested s)) image_url = Inr r \<and> status_code r \<noteq> 200)
        \<longrightarrow> fst (get_text_from_image w image_url s) = Inr [])
   \<and> ((\<exists>e. fst (get_text_try w image_url s) = Inl e)
        \<longrightarrow> fst (get_text_from_image w image_url s) = Inr [])"
  by (auto simp: get_text_from_image_def get_text_try_def requests_get_def
           split: sum.splits prod.splits option.splits list.splits)

theorem get_text_from_image_total_witness:
  "(\<exists>r. net site (length (requested start)) (base_url @ u ''/b.png'') = Inr r
         \<and> status_code r \<noteq> 200)
   \<and> fst (get_text_from_image site (base_url @ u ''/b.png'') start) = Inr []
   \<and> (\<exists>e. fst (get_text_try site (u ''x'') start) = Inl e)
   \<and> fst (get_text_from_image site (u ''x'') start) = Inr []"
proof -
  have a: "net site (length (requested start)) (base_url @ u ''/b.png'')
           = Inr \<lparr>status_code = 404, body = [11]\<rparr>"
    by (simp add: site_def site_net_def base_url_def u_def)
  have b: "fst (get_text_try site (u ''x'') start) = Inl RequestException"
    by (simp add: get_text_try_def requests_get_def site_def site_net_def base_url_def u_def)
  from a have a': "\<exists>r. net site (length (requested start)) (base_url @ u ''/b.png'') = Inr r
                      \<and> status_code r \<noteq> 200"
    by simp
  from b have b': "\<exists>e. fst (get_text_try site (u ''x'') start) = Inl e"
    by simp
  show ?thesis
    using a' b' get_text_from_image_total [of site "base_url @ u ''/b.png''" start]
      get_text_from_image_total [of site "u ''x''" start]
    by blast
qed

subsection \<open>The table of competitions\<close>

text \<open>
  C1. \<open>save_competition\<close> called twice with the same id: when the id is not yet in the
  table and the database raises no error of its own, the first call returns \<open>True\<close>
  and the second \<open>False\<close>, whatever the other fields of the second entry and whatever
  happens to the rest of the state between the calls; the table after both calls is the
  table after the first, and the row of the id is the row the first call wrote.
\<close>

theorem save_competition_twice:
  assumes fresh: "db s (str_nat (index c1)) = None"
      and ok1: "sqlite_fault w (db_calls s) = None"
      and first: "save_competition w c1 s = (r1, s1)"
      and same: "index c2 = index c1"
      and between: "db s1' = db s1"
      and ok2: "sqlite_fault w (db_calls s1') = None"
      and second: "save_competition w c2 s1' = (r2, s2)"
  shows "r1 = Inr True \<and> r2 = Inr False \<and> db s2 = db s1
         \<and> db s2 (str_nat (index c1)) = Some (row_of c1 (now s))"
proof -
  from fresh ok1 first have r1: "r1 = Inr True"
    and s1: "db s1 = (db s)(str_nat (index c1) \<mapsto> row_of c1 (now s))"
    by (auto simp: save_competition_def Let_def)
  from s1 between same have stored: "db s1' (str_nat (index c2)) = Some (row_of c1 (now s))"
    by simp
  with ok2 second have r2: "r2 = Inr False" and s2: "db s2 = db s1'"
    by (auto simp: save_competition_def Let_def)
  from r1 r2 s1 s2 between show ?thesis by simp
qed

theorem save_competition_twice_witness:
  "fst (save_competition offline first_entry start) = Inr True
   \<and> fst (save_competition offline second_entry
            ((snd (save_competition offline first_entry start))\<lparr>now := 50\<rparr>)) = Inr False
   \<and> db (snd (save_competition offline second_entry
            ((snd (save_competition offline first_entry start))\<lparr>now := 50\<rparr>))) (str_nat 3)
       = Some (row_of first_entry 0)"
proof -
  have i1: "index first_entry = 3" and i2: "index second_entry = index first_entry"
    by (simp_all add: first_entry_def second_entry_def bare_def)
  have h1: "db start (str_nat (index first_entry)) = None"
    by (simp add: start_def)
  have h2: "sqlite_fault offline (db_calls start) = None"
    by (simp add: offline_def)
  have h3: "save_competition offline first_entry start
            = (fst (save_competition offline first_entry start),
               snd (save_competition offline first_entry start))"
    by simp
  have h5: "db ((snd (save_competition offline first_entry start))\<lparr>now := 50\<rparr>)
            = db (snd (save_competition offline first_entry start))"
    by simp
  have h6: "sqlite_fault offline
              (db_calls ((snd (save_competition offline first_entry start))\<lparr>now := 50\<rparr>)) = None"
    by (simp add: offline_def)
  have h7: "save_competition offline second_entry
              ((snd (save_competition offline first_entry start))\<lparr>now := 50\<rparr>)
            = (fst (save_competition offline second_entry
                 ((snd (save_competition offline first_entry start))\<lparr>now := 50\<rparr>)),
               snd (save_competition offline second_entry
                 ((snd (save_competition offline first_entry start))\<lparr>now := 50\<rparr>)))"
    by simp
  have n: "now start = 0" by (simp add: start_def)
  show ?thesis
    using save_competition_twice [OF h1 h2 h3 i2 h5 h6 h7] by (auto simp: i1 n)
qed

subsection \<open>The index of an entry\<close>

text \<open>
  C9. The index of an entry is the position of its item, counted from 1, among all the
  \<open>li\<close> items of the fetched page, the items passed over (no link, or no title)
  included: the indices and titles of the entries returned are those of the
  well-formed items at their positions. So the indices are strictly increasing, lie
  between 1 and the number of items, and need not be contiguous. The id written to the
  table is the decimal string of the index.
\<close>

theorem index_is_position:
  assumes "net w (length (requested s)) (base_url @ u ''/home/newss.html'') = Inr r"
      and "soup_list_news w (body r) = Inr (Some news_items)"
  shows "\<exists>news. fst (fetch_news_urls w s) = Inr news
           \<and> map (\<lambda>e. (index e, title e)) news = numbered_titles 1 news_items
           \<and> sorted_wrt (<) (map index news)
           \<and> (\<forall>e \<in> set news. 1 \<le> index e \<and> index e \<le> length news_items
                  \<and> well_formed (news_items ! (index e - 1))
                  \<and> (\<forall>t. col_id (row_of e t) = str_nat (index e))
                  \<and> decimal_value (str_nat (index e)) = index e
                  \<and> (\<forall>d \<in> set (str_nat (index e)). 48 \<le> d \<and> d \<le> 57)
                  \<and> (\<forall>s1 s2. save_competition w e s1 = (Inr True, s2) \<longrightarrow>
                        (\<exists>x. db s2 (str_nat (index e)) = Some x \<and> col_id x = str_nat (index e))))"
proof -
  obtain news where n: "fst (fetch_news_urls w s) = Inr news"
    and t: "map (\<lambda>e. (index e, title e)) news = numbered_titles 1 news_items"
    using items_loop_titles [of w 1 news_items "[]"] fetch_news_urls_listed [OF assms]
    by auto
  have "map fst (map (\<lambda>e. (index e, title e)) news) = map index news"
    by simp
  with t have m: "map index news = map fst (numbered_titles 1 news_items)"
    by simp
  then have sorted: "sorted_wrt (<) (map index news)"
    by (simp add: numbered_titles_sorted)
  have pos: "1 \<le> index e \<and> index e \<le> length news_items
               \<and> well_formed (news_items ! (index e - 1))" if "e \<in> set news" for e
  proof -
    from that have "(index e, title e) \<in> set (map (\<lambda>e. (index e, title e)) news)"
      by force
    with t have "(index e, title e) \<in> set (numbered_titles 1 news_items)" by simp
    from numbered_titles_range [OF this] show ?thesis by simp
  qed
  have saved: "\<exists>x. db s2 (str_nat (index e)) = Some x \<and> col_id x = str_nat (index e)"
    if "save_competition w e s1 = (Inr True, s2)" for e s1 s2
    using that
    by (auto simp: save_competition_def Let_def row_of_def split: option.splits if_splits)
  have row: "col_id (row_of e t) = str_nat (index e)" for e t
    by (simp add: row_of_def)
  have "\<forall>e \<in> set news. 1 \<le> index e \<and> index e \<le> length news_items
                  \<and> well_formed (news_items ! (index e - 1))
                  \<and> (\<forall>t. col_id (row_of e t) = str_nat (index e))
                  \<and> decimal_value (str_nat (index e)) = index e
                  \<and> (\<forall>d \<in> set (str_nat (index e)). 48 \<le> d \<and> d \<le> 57)
                  \<and> (\<forall>s1 s2. save_competition w e s1 = (Inr True, s2) \<longrightarrow>
                        (\<exists>x. db s2 (str_nat (index e)) = Some x \<and> col_id x = str_nat (index e)))"
  proof
    fix e
    assume e: "e \<in> set news"
    have d: "\<forall>d \<in> set (str_nat (index e)). 48 \<le> d \<and> d \<le> 57"
      using str_nat_digits by blast
    have sv: "\<forall>s1 s2. save_competition w e s1 = (Inr True, s2) \<longrightarrow>
                (\<exists>x. db s2 (str_nat (index e)) = Some x \<and> col_id x = str_nat (index e))"
      using saved by blast
    from pos [OF e] row d sv decimal_value_str_nat [of "index e"]
    show "1 \<le> index e \<and> index e \<le> length news_items
                  \<and> well_formed (news_items ! (index e - 1))
                  \<and> (\<forall>t. col_id (row_of e t) = str_nat (index e))
                  \<and> decimal_value (str_nat (index e)) = index e
                  \<and> (\<forall>d \<in> set (str_nat (index e)). 48 \<le> d \<and> d \<le> 57)
                  \<and> (\<forall>s1 s2. save_competition w e s1 = (Inr True, s2) \<longrightarrow>
                        (\<exists>x. db s2 (str_nat (index e)) = Some x \<and> col_id x = str_nat (index e)))"
      by simp
  qed
  with n t sorted show ?thesis
    by (intro exI [of _ news] conjI)
qed

theorem index_is_position_witness:
  "\<exists>news. fst (fetch_news_urls site start) = Inr news
     \<and> map (\<lambda>e. (index e, title e)) news
        = [(1, [27604, 36187]), (3, u ''notice''), (4, [24449, 38598])]"
proof -
  have h1: "net site (length (requested start)) (base_url @ u ''/home/newss.html'')
            = Inr \<lparr>status_code = 200, body = [0]\<rparr>"
    by (simp add: site_def site_net_def)
  have h2: "soup_list_news site (body \<lparr>status_code = 200, body = [0]\<rparr>) = Inr (Some site_items)"
    by (simp add: site_def)
  have t: "numbered_titles 1 site_items
           = [(1, [27604, 36187]), (3, u ''notice''), (4, [24449, 38598])]"
    by (simp add: numbered_titles_def site_items_def)
  show ?thesis
    using index_is_position [OF h1 h2] t by auto
qed

subsection \<open>Failure of the listing request\<close>

text \<open>
  C7, as amended. \<open>fetch_news_urls\<close> never raises. It returns the empty list when the
  request for the listing raises (a network error), when the body of the answer has no
  \<open>ul\<close> of class \<open>list_news\<close> (as an error page has none), and when anything else in
  the \<open>try\<close> block raises. The status code of the answer is not looked at: the
  counterexample is an answer with status 500 whose body has the list, and the entry
  of that list is returned.
\<close>

theorem fetch_news_urls_never_raises:
  "(\<exists>news. fst (fetch_news_urls w s) = Inr news)
   \<and> ((\<exists>e. net w (length (requested s)) (base_url @ u ''/home/newss.html'') = Inl e)
        \<longrightarrow> fst (fetch_news_urls w s) = Inr [])
   \<and> ((\<exists>r. net w (length (requested s)) (base_url @ u ''/home/newss.html'') = Inr r
             \<and> soup_list_news w (body r) = Inr None)
        \<longrightarrow> fst (fetch_news_urls w s) = Inr [])
   \<and> ((\<exists>e. fst (fetch_news_try w s) = Inl e) \<longrightarrow> fst (fetch_news_urls w s) = Inr [])"
proof (intro conjI impI)
  show "\<exists>news. fst (fetch_news_urls w s) = Inr news"
    by (simp add: fetch_news_urls_def split: prod.splits sum.splits)
next
  assume "\<exists>e. net w (length (requested s)) (base_url @ u ''/home/newss.html'') = Inl e"
  then show "fst (fetch_news_urls w s) = Inr []"
    by (auto simp: fetch_news_urls_def fetch_news_try_def requests_get_def)
next
  assume "\<exists>r. net w (length (requested s)) (base_url @ u ''/home/newss.html'') = Inr r
              \<and> soup_list_news w (body r) = Inr None"
  then show "fst (fetch_news_urls w s) = Inr []"
    by (auto simp: fetch_news_urls_def fetch_news_try_def requests_get_def)
next
  assume "\<exists>e. fst (fetch_news_try w s) = Inl e"
  then show "fst (fetch_news_urls w s) = Inr []"
    by (auto simp: fetch_news_urls_def split: prod.splits sum.splits)
qed

theorem fetch_news_urls_never_raises_witness:
  "(\<exists>e. net offline (length (requested start)) (base_url @ u ''/home/newss.html'') = Inl e)
   \<and> (\<exists>e. fst (fetch_news_try offline start) = Inl e)
   \<and> fst (fetch_news_urls offline start) = Inr []
   \<and> (\<exists>r. net (offline\<lparr>net := \<lambda>k a. Inr \<lparr>status_code = 404, body = []\<rparr>\<rparr>)
              (length (requested start)) (base_url @ u ''/home/newss.html'') = Inr r
          \<and> soup_list_news (offline\<lparr>net := \<lambda>k a. Inr \<lparr>status_code = 404, body = []\<rparr>\<rparr>) (body r)
              = Inr None)
   \<and> fst (fetch_news_urls (offline\<lparr>net := \<lambda>k a. Inr \<lparr>status_code = 404, body = []\<rparr>\<rparr>) start)
       = Inr []"
proof -
  have a: "\<exists>e. net offline (length (requested start)) (base_url @ u ''/home/newss.html'') = Inl e"
    by (simp add: offline_def)
  have b: "\<exists>e. fst (fetch_news_try offline start) = Inl e"
    by (simp add: fetch_news_try_def requests_get_def offline_def)
  have c: "\<exists>r. net (offline\<lparr>net := \<lambda>k a. Inr \<lparr>status_code = 404, body = []\<rparr>\<rparr>)
              (length (requested start)) (base_url @ u ''/home/newss.html'') = Inr r
          \<and> soup_list_news (offline\<lparr>net := \<lambda>k a. Inr \<lparr>status_code = 404, body = []\<rparr>\<rparr>) (body r)
              = Inr None"
    by (simp add: offline_def)
  show ?thesis
    using a b c fetch_news_urls_never_raises [of offline start]
      fetch_news_urls_never_raises
        [of "offline\<lparr>net := \<lambda>k a. Inr \<lparr>status_code = 404, body = []\<rparr>\<rparr>" start]
    by blast
qed

theorem fetch_news_urls_status_counterexample:
  "net failing (length (requested start)) (base_url @ u ''/home/newss.html'')
     = Inr \<lparr>status_code = 500, body = [0]\<rparr>
   \<and> fst (fetch_news_urls failing start)
     = Inr [bare 1 (u ''notice'') [] (base_url @ u ''/n3.html'') False]"
  by (simp add: fetch_news_urls_def fetch_news_try_def requests_get_def failing_def
        offline_def news_item_def has_keyword_def competition_keywords_def absolute_url_def
        startswith_def u_def bare_def start_def)

subsection \<open>Entries that are not relevant\<close>

text \<open>
  C5. An item whose title has none of the keywords is not a competition: its entry is
  built without calling \<open>parse_news_content\<close>, which shows in the state, left as it
  was, whereas \<open>parse_news_content\<close> always requests its page first. A pass then works
  only on the entries whose title has a keyword: every row it adds to the table and
  every message it sends comes from such an entry.
\<close>

theorem irrelevant_entry_dropped:
  assumes "fst (fetch_news_urls w s) = Inr news"
  shows "(\<forall>e \<in> set news. is_competition e = has_keyword (title e))
     \<and> (\<forall>link t idx s0. h3 link = Some t \<and> \<not> has_keyword t \<longrightarrow>
           (\<exists>e. news_item w idx (Some link) s0 = (Inr (Some e), s0)
                \<and> \<not> is_competition e \<and> content e = None))
     \<and> (\<forall>a s0. \<exists>rs. requested (snd (parse_news_content w a s0)) = requested s0 @ a # rs)
     \<and> run_task w s =
           competition_loop w (filter (\<lambda>c. has_keyword (title c) \<and> content c \<noteq> None) news)
             (snd (fetch_news_urls w s))
     \<and> (\<forall>k x. db (snd (run_task w s)) k = Some x \<longrightarrow>
           db s k = Some x \<or> (\<exists>c \<in> set news. has_keyword (title c) \<and> x = row_of c (now s)))
     \<and> (\<forall>p \<in> set (outbox (snd (run_task w s))).
           p \<in> set (outbox s) \<or> (\<exists>c \<in> set news. has_keyword (title c) \<and> snd p = message_of c))"
proof -
  have kw: "\<forall>e \<in> set news. is_competition e = has_keyword (title e)"
  proof (rule fetch_news_urls_all [OF _ assms])
    fix idx item s0 e s0'
    assume "news_item w idx item s0 = (Inr (Some e), s0')"
    from news_item_Some [OF this] show "is_competition e = has_keyword (title e)" by blast
  qed
  have item: "\<forall>link t idx s0. h3 link = Some t \<and> \<not> has_keyword t \<longrightarrow>
           (\<exists>e. news_item w idx (Some link) s0 = (Inr (Some e), s0)
                \<and> \<not> is_competition e \<and> content e = None)"
    by (auto simp: news_item_irrelevant bare_def)
  have req: "\<forall>a s0. \<exists>rs. requested (snd (parse_news_content w a s0)) = requested s0 @ a # rs"
    using parse_news_content_requests by blast
  let ?cs = "filter (\<lambda>c. has_keyword (title c) \<and> content c \<noteq> None) news"
  let ?s1 = "snd (fetch_news_urls w s)"
  have run: "run_task w s = competition_loop w ?cs ?s1"
    by (rule run_task_filter [OF kw assms])
  have same: "db ?s1 = db s" "now ?s1 = now s" "outbox ?s1 = outbox s"
    using more_requests_same [OF fetch_news_urls_more [of s w]] by simp_all
  have l: "competition_loop w ?cs ?s1 = (fst (run_task w s), snd (run_task w s))"
    by (simp add: run)
  note eff = competition_loop_effects [OF l]
  have table: "\<forall>k x. db (snd (run_task w s)) k = Some x \<longrightarrow>
           db s k = Some x \<or> (\<exists>c \<in> set news. has_keyword (title c) \<and> x = row_of c (now s))"
    using eff same by auto
  have sent: "\<forall>p \<in> set (outbox (snd (run_task w s))).
           p \<in> set (outbox s) \<or> (\<exists>c \<in> set news. has_keyword (title c) \<and> snd p = message_of c)"
    using eff same by auto
  from kw item req run table sent show ?thesis by (intro conjI)
qed

theorem irrelevant_entry_dropped_witness:
  "fst (fetch_news_urls site start) = Inr [site_entry1, site_entry3, site_entry4]
   \<and> \<not> has_keyword (title site_entry3)
   \<and> run_task site start = competition_loop site [site_entry1] (snd (fetch_news_urls site start))
   \<and> db (snd (run_task site start)) = [str_nat 1 \<mapsto> row_of site_entry1 0]
   \<and> outbox (snd (run_task site start)) = [(7, message_of site_entry1)]"
proof -
  have h: "fst (fetch_news_urls site start) = Inr [site_entry1, site_entry3, site_entry4]"
    by (simp add: site_fetch)
  have e: "has_keyword (title site_entry1)" "\<not> has_keyword (title site_entry3)"
    "has_keyword (title site_entry4)" "content site_entry1 \<noteq> None"
    "content site_entry4 = None"
    by (simp_all add: site_entry1_def site_entry3_def site_entry4_def bare_def site_keywords)
  show ?thesis
    using irrelevant_entry_dropped [OF h] site_run(2,3) by (simp add: e h)
qed

subsection \<open>Entries whose detail page could not be processed\<close>

text \<open>
  C4, as amended. When \<open>parse_news_content\<close> fails for a relevant item, the item is
  still returned by \<open>fetch_news_urls\<close>, as a bare entry (index, title, date, URL and the
  relevance flag, no content and no field), and so reaches the list \<open>run_task\<close> goes
  through. There the test \<open>'content' in competition\<close> passes it over: it is neither
  written to the table nor handed to \<open>push_message\<close>. A pass does what the loop does on
  the relevant entries that have content, and every row it adds and every message it
  sends comes from one of them. The counterexample is a pass with one subscriber and
  one relevant entry whose page cannot be fetched: no message is sent.
\<close>

theorem failed_extraction_entry:
  assumes "fst (fetch_news_urls w s) = Inr news"
  shows "(\<forall>link t idx s0.
            h3 link = Some t \<and> has_keyword t
            \<and> fst (parse_news_content w
                      (absolute_url (case href link of None \<Rightarrow> [] | Some h \<Rightarrow> h)) s0) = Inr None
            \<longrightarrow> fst (news_item w idx (Some link) s0)
                = Inr (Some (bare idx t (case em link of None \<Rightarrow> [] | Some d \<Rightarrow> d)
                               (absolute_url (case href link of None \<Rightarrow> [] | Some h \<Rightarrow> h))
                               True)))
     \<and> (\<forall>c cs s0. content c = None \<longrightarrow>
            competition_loop w (c # cs) s0 = competition_loop w cs s0)
     \<and> run_task w s =
           competition_loop w (filter (\<lambda>c. is_competition c \<and> content c \<noteq> None) news)
             (snd (fetch_news_urls w s))
     \<and> (\<forall>k x. db (snd (run_task w s)) k = Some x \<longrightarrow>
           db s k = Some x \<or> (\<exists>c \<in> set news. content c \<noteq> None \<and> x = row_of c (now s)))
     \<and> (\<forall>p \<in> set (outbox (snd (run_task w s))).
           p \<in> set (outbox s) \<or> (\<exists>c \<in> set news. content c \<noteq> None \<and> snd p = message_of c))"
proof -
  have item: "\<forall>link t idx s0.
            h3 link = Some t \<and> has_keyword t
            \<and> fst (parse_news_content w
                      (absolute_url (case href link of None \<Rightarrow> [] | Some h \<Rightarrow> h)) s0) = Inr None
            \<longrightarrow> fst (news_item w idx (Some link) s0)
                = Inr (Some (bare idx t (case em link of None \<Rightarrow> [] | Some d \<Rightarrow> d)
                               (absolute_url (case href link of None \<Rightarrow> [] | Some h \<Rightarrow> h))
                               True))"
    using news_item_failed by blast
  have skip: "\<forall>c cs s0. content c = None \<longrightarrow>
            competition_loop w (c # cs) s0 = competition_loop w cs s0"
    by simp
  let ?cs = "filter (\<lambda>c. is_competition c \<and> content c \<noteq> None) news"
  let ?s1 = "snd (fetch_news_urls w s)"
  have run: "run_task w s = competition_loop w ?cs ?s1"
    by (rule run_task_content [OF assms])
  have same: "db ?s1 = db s" "now ?s1 = now s" "outbox ?s1 = outbox s"
    using more_requests_same [OF fetch_news_urls_more [of s w]] by simp_all
  have l: "competition_loop w ?cs ?s1 = (fst (run_task w s), snd (run_task w s))"
    by (simp add: run)
  note eff = competition_loop_effects [OF l]
  have table: "\<forall>k x. db (snd (run_task w s)) k = Some x \<longrightarrow>
           db s k = Some x \<or> (\<exists>c \<in> set news. content c \<noteq> None \<and> x = row_of c (now s))"
    using eff same by auto
  have sent: "\<forall>p \<in> set (outbox (snd (run_task w s))).
           p \<in> set (outbox s) \<or> (\<exists>c \<in> set news. content c \<noteq> None \<and> snd p = message_of c)"
  proof
    fix p
    assume "p \<in> set (outbox (snd (run_task w s)))"
    with eff have "p \<in> set (outbox ?s1)
                   \<or> (\<exists>c \<in> set ?cs. content c \<noteq> None \<and> snd p = message_of c)"
      by blast
    then show "p \<in> set (outbox s)
               \<or> (\<exists>c \<in> set news. content c \<noteq> None \<and> snd p = message_of c)"
      unfolding same by auto
  qed
  from item skip run table sent show ?thesis by (intro conjI)
qed

theorem failed_extraction_entry_witness:
  "fst (fetch_news_urls site start) = Inr [site_entry1, site_entry3, site_entry4]
   \<and> is_competition site_entry4 \<and> content site_entry4 = None
   \<and> run_task site start = competition_loop site [site_entry1] (snd (fetch_news_urls site start))
   \<and> db (snd (run_task site start)) (str_nat (index site_entry4)) = None
   \<and> outbox (snd (run_task site start)) = [(7, message_of site_entry1)]"
proof -
  have h: "fst (fetch_news_urls site start) = Inr [site_entry1, site_entry3, site_entry4]"
    by (simp add: site_fetch)
  have e: "is_competition site_entry1" "\<not> is_competition site_entry3"
    "is_competition site_entry4" "content site_entry1 \<noteq> None"
    "content site_entry4 = None" "index site_entry4 = 4"
    by (simp_all add: site_entry1_def site_entry3_def site_entry4_def bare_def)
  have n: "str_nat 4 \<noteq> str_nat 1"
    by (simp add: str_nat.simps)
  show ?thesis
    using failed_extraction_entry [OF h] site_run(2,3) n by (simp add: e h)
qed

theorem failed_extraction_not_notified_counterexample:
  "fst (fetch_news_urls lonely start)
     = Inr [bare 1 [27604, 36187] [] (base_url @ u ''/n1.html'') True]
   \<and> chat_ids start = [7]
   \<and> fst (run_task lonely start) = Inr ()
   \<and> outbox (snd (run_task lonely start)) = []"
  by (simp add: lonely_fetch lonely_run) (simp add: start_def)

subsection \<open>The scheduler\<close>

text \<open>
  C6, as amended. The loop of \<open>scheduled_task\<close> has no \<open>try\<close>: an exception that leaves
  \<open>run_task\<close> ends the loop at once, without the wait and without a further pass. Two
  things can leave \<open>run_task\<close>: an error of the database in \<open>save_competition\<close> other
  than \<open>IntegrityError\<close>, and the \<open>RuntimeError\<close> of \<open>send_message\<close> when a command
  handled during a delivery changes the size of the set of subscribers. Everything the
  network, the parsers, the recognition engine and the message transport raise is
  caught inside the pass. So when the database raises no such error and no command is
  handled during a delivery, the loop goes on pass after pass, with the wait of twelve
  hours after each. The counterexamples are a pass that finds a new competition while
  the database is locked, and one during whose delivery a subscriber joins.
\<close>

theorem scheduler_loop_catches_nothing:
  "((\<forall>k e. sqlite_fault w k = Some e \<longrightarrow> e = IntegrityError)
      \<and> (\<forall>k. during_delivery w k = []) \<longrightarrow>
      fst (scheduled_task w n s) = None
      \<and> now (snd (scheduled_task w n s)) = now s + n * (12 * 3600))
   \<and> (fst (run_task w s) = Inl e \<longrightarrow>
      scheduled_task w (Suc n) s = (Some e, snd (run_task w s))
      \<and> now (snd (run_task w s)) = now s
      \<and> ((\<exists>k. sqlite_fault w k = Some e \<and> e \<noteq> IntegrityError)
          \<or> (e = RuntimeError \<and> (\<exists>k. during_delivery w k \<noteq> []))))
   \<and> (fst (run_task w s) = Inr () \<longrightarrow>
      scheduled_task w (Suc n) s = scheduled_task w n (sleep w (snd (run_task w s)))
      \<and> now (sleep w (snd (run_task w s))) = now s + 12 * 3600)"
proof (intro conjI impI)
  assume "(\<forall>k e. sqlite_fault w k = Some e \<longrightarrow> e = IntegrityError)
          \<and> (\<forall>k. during_delivery w k = [])"
  then have "fst (scheduled_task w n s) = None
             \<and> now (snd (scheduled_task w n s)) = now s + n * (12 * 3600)"
    using scheduled_task_runs [of w n s] by blast
  then show "fst (scheduled_task w n s) = None"
    and "now (snd (scheduled_task w n s)) = now s + n * (12 * 3600)"
    by simp_all
next
  assume r: "fst (run_task w s) = Inl e"
  show "scheduled_task w (Suc n) s = (Some e, snd (run_task w s))"
    by (rule scheduled_task_raise [OF r])
  show "now (snd (run_task w s)) = now s"
    by (rule run_task_now)
  show "(\<exists>k. sqlite_fault w k = Some e \<and> e \<noteq> IntegrityError)
        \<or> (e = RuntimeError \<and> (\<exists>k. during_delivery w k \<noteq> []))"
    by (rule run_task_raises [OF r])
next
  assume r: "fst (run_task w s) = Inr ()"
  show "scheduled_task w (Suc n) s = scheduled_task w n (sleep w (snd (run_task w s)))"
    by (rule scheduled_task_next [OF r])
  show "now (sleep w (snd (run_task w s))) = now s + 12 * 3600"
    by (simp add: sleep_now run_task_now)
qed

theorem scheduler_loop_catches_nothing_witness:
  "(\<forall>k. sqlite_fault site k = None) \<and> (\<forall>k. during_delivery site k = [])
   \<and> fst (scheduled_task site 2 start) = None
   \<and> now (snd (scheduled_task site 2 start)) = 86400
   \<and> fst (run_task locked start) = Inl OperationalError
   \<and> scheduled_task locked (Suc 2) start = (Some OperationalError, snd (run_task locked start))
   \<and> fst (run_task joining start) = Inl RuntimeError
   \<and> scheduled_task joining (Suc 2) start = (Some RuntimeError, snd (run_task joining start))
   \<and> fst (run_task site start) = Inr ()
   \<and> scheduled_task site (Suc 2) start
     = scheduled_task site 2 (sleep site (snd (run_task site start)))"
proof -
  have a: "\<forall>k. sqlite_fault site k = None" and b: "\<forall>k. during_delivery site k = []"
    by (simp_all add: site_def)
  from a have a': "\<forall>k e. sqlite_fault site k = Some e \<longrightarrow> e = IntegrityError"
    by simp
  have n: "now start = 0"
    by (simp add: start_def)
  show ?thesis
    using a a' b locked_run joining_run site_run(1) n
      scheduler_loop_catches_nothing [of site 2 start OperationalError]
      scheduler_loop_catches_nothing [of locked 2 start OperationalError]
      scheduler_loop_catches_nothing [of joining 2 start RuntimeError]
    by simp
qed

theorem scheduler_swallows_counterexample:
  "fst (scheduled_task locked 3 start) = Some OperationalError
   \<and> now (snd (scheduled_task locked 3 start)) = now start
   \<and> fst (scheduled_task joining 3 start) = Some RuntimeError
   \<and> now (snd (scheduled_task joining 3 start)) = now start"
proof -
  have "scheduled_task locked 3 start = (Some OperationalError, snd (run_task locked start))"
    using scheduled_task_raise [OF locked_run, of 2] by (simp add: eval_nat_numeral)
  moreover
  have "scheduled_task joining 3 start = (Some RuntimeError, snd (run_task joining start))"
    using scheduled_task_raise [OF joining_run, of 2] by (simp add: eval_nat_numeral)
  ultimately show ?thesis
    by (simp add: run_task_now)
qed

subsection \<open>The text of a detail page\<close>

text \<open>
  C8, as amended. The text of a page is built from the texts recognised on its images,
  in the order of the images in the page: each image that has a source adds a newline
  followed by its text, and adds nothing when its text is empty. An image whose
  download or recognition fails has the empty text, so it adds nothing, and the loop
  goes on: there is one text for every image with a source, whatever happened to the
  images before it. The counterexample is a page with one image: the text of the page
  is a newline and the text of the image, not the text of the image alone.
\<close>

theorem raw_text_of_images:
  "fst (img_loop w img_tags [] s)
     = Inr (concat (map (\<lambda>t. if t = [] then [] else 10 # t) (image_texts w img_tags s)))
   \<and> length (image_texts w img_tags s)
     = length (filter (\<lambda>i. img_source i \<noteq> None) img_tags)
   \<and> ((\<exists>e. fst (get_text_try w src s0) = Inl e)
        \<or> (\<exists>r. net w (length (requested s0)) src = Inr r \<and> status_code r \<noteq> 200)
      \<longrightarrow> fst (get_text_from_image w src s0) = Inr [])
   \<and> (parse_news_try w a s = (Inr info, s') \<longrightarrow>
        (\<exists>r tags. net w (length (requested s)) a = Inr r \<and> soup_img_src w (body r) = Inr tags
           \<and> c_content info
             = concat (map (\<lambda>t. if t = [] then [] else 10 # t)
                 (image_texts w tags (s\<lparr>requested := requested s @ [a]\<rparr>)))))"
proof (intro conjI impI)
  show "fst (img_loop w img_tags [] s)
     = Inr (concat (map (\<lambda>t. if t = [] then [] else 10 # t) (image_texts w img_tags s)))"
    using img_loop_texts [of w img_tags "[]" s] by simp
next
  show "length (image_texts w img_tags s)
     = length (filter (\<lambda>i. img_source i \<noteq> None) img_tags)"
    by (rule image_texts_length)
next
  assume "(\<exists>e. fst (get_text_try w src s0) = Inl e)
        \<or> (\<exists>r. net w (length (requested s0)) src = Inr r \<and> status_code r \<noteq> 200)"
  then show "fst (get_text_from_image w src s0) = Inr []"
    by (rule get_text_from_image_failed)
next
  assume "parse_news_try w a s = (Inr info, s')"
  from parse_news_try_content [OF this] obtain r tags where
    "net w (length (requested s)) a = Inr r" "soup_img_src w (body r) = Inr tags"
    "fst (img_loop w tags [] (s\<lparr>requested := requested s @ [a]\<rparr>)) = Inr (c_content info)"
    by blast
  then show "\<exists>r tags. net w (length (requested s)) a = Inr r \<and> soup_img_src w (body r) = Inr tags
           \<and> c_content info
             = concat (map (\<lambda>t. if t = [] then [] else 10 # t)
                 (image_texts w tags (s\<lparr>requested := requested s @ [a]\<rparr>)))"
    using img_loop_texts [of w tags "[]" "s\<lparr>requested := requested s @ [a]\<rparr>"] by auto
qed

theorem raw_text_of_images_witness:
  "(\<exists>r. net site (length (requested start)) (base_url @ u ''/b.png'') = Inr r
         \<and> status_code r \<noteq> 200)
   \<and> fst (get_text_from_image site (base_url @ u ''/b.png'') start) = Inr []
   \<and> image_texts site
        [Some (u ''a.png''), None, Some (u ''/b.png''), Some (u ''http://c/c.png'')] start
      = [[20027, 21150, 65306, 65], [], [66]]
   \<and> fst (img_loop site
        [Some (u ''a.png''), None, Some (u ''/b.png''), Some (u ''http://c/c.png'')] [] start)
      = Inr [10, 20027, 21150, 65306, 65, 10, 66]"
proof -
  have a: "\<exists>r. net site (length (requested start)) (base_url @ u ''/b.png'') = Inr r
                \<and> status_code r \<noteq> 200"
    by (simp add: site_def site_net_def base_url_def u_def)
  note t = raw_text_of_images [of site
        "[Some (u ''a.png''), None, Some (u ''/b.png''), Some (u ''http://c/c.png'')]" start
        "base_url @ u ''/b.png''" start "[]"
        "\<lparr>c_content = [], c_date_info = [], c_requirements = [], c_organizer = [],
          c_undertaker = []\<rparr>" start]
  from t have c1: "fst (img_loop site
        [Some (u ''a.png''), None, Some (u ''/b.png''), Some (u ''http://c/c.png'')] [] start)
      = Inr (concat (map (\<lambda>t. if t = [] then [] else 10 # t) (image_texts site
        [Some (u ''a.png''), None, Some (u ''/b.png''), Some (u ''http://c/c.png'')] start)))"
    by (rule conjunct1)
  from t a have c3: "fst (get_text_from_image site (base_url @ u ''/b.png'') start) = Inr []"
    by blast
  have c1': "fst (img_loop site
        [Some (u ''a.png''), None, Some (u ''/b.png''), Some (u ''http://c/c.png'')] [] start)
      = Inr [10, 20027, 21150, 65306, 65, 10, 66]"
    using c1 unfolding site_image_texts by simp
  show ?thesis
    using a c1' c3 site_image_texts [of start] by blast
qed

theorem raw_text_plain_concatenation_counterexample:
  "image_texts site [Some (u ''a.png'')] start = [[20027, 21150, 65306, 65]]
   \<and> fst (img_loop site [Some (u ''a.png'')] [] start) = Inr [10, 20027, 21150, 65306, 65]
   \<and> fst (img_loop site [Some (u ''a.png'')] [] start)
       \<noteq> Inr (concat (image_texts site [Some (u ''a.png'')] start))
   \<and> fst (parse_news_content site (base_url @ u ''/n1.html'') start)
       = Inr (Some \<lparr>c_content = [10, 20027, 21150, 65306, 65, 10, 66],
                      c_date_info = no_date_info, c_requirements = no_requirements,
                      c_organizer = [65], c_undertaker = no_undertaker\<rparr>)"
proof -
  have 1: "img_source (Some (u ''a.png'')) = Some (base_url @ u ''/a.png'')"
    by (simp add: img_source_def startswith_def lstrip_slash_def u_def)
  show ?thesis
    by (simp add: 1 img_loop_Cons site_text_a site_page)
qed

subsection \<open>First match wins\<close>

text \<open>
  C2. For each of the four families (registration date, requirements, organiser,
  undertaker) and every text, the loop over the patterns gives what first match wins
  gives: the value captured by the first pattern of the list that matches the text,
  or nothing when none matches. The patterns after the first match play no part: with
  any other patterns in their place, matching the text or not, the loop gives the same
  result. The captured value is never empty, so it is the value of the field in the
  result.
\<close>

theorem first_match_wins:
  "date_loop U date_patterns t = first_match U date_patterns t
   \<and> field_loop U requirements_patterns t = Inr (first_match U requirements_patterns t)
   \<and> field_loop U organizer_patterns t = Inr (first_match U organizer_patterns t)
   \<and> field_loop U undertaker_patterns t = Inr (first_match U undertaker_patterns t)
   \<and> ((\<forall>q \<in> set ps. re_search U q t = None) \<and> re_search U p t = Some m \<longrightarrow>
        first_match U (ps @ p # qs) t = Some (captured p m)
        \<and> date_loop U (ps @ p # qs) t = date_loop U (ps @ [p]) t
        \<and> field_loop U (ps @ p # qs) t = field_loop U (ps @ [p]) t)
   \<and> (family \<in> {date_patterns, requirements_patterns, organizer_patterns, undertaker_patterns}
        \<and> first_match U family t = Some v \<longrightarrow> v \<noteq> [] \<and> or_else (Some v) sentinel = v)"
proof -
  have later: "(\<forall>q \<in> set ps. re_search U q t = None) \<and> re_search U p t = Some m \<longrightarrow>
        first_match U (ps @ p # qs) t = Some (captured p m)
        \<and> date_loop U (ps @ p # qs) t = date_loop U (ps @ [p]) t
        \<and> field_loop U (ps @ p # qs) t = field_loop U (ps @ [p]) t"
    using first_match_later [of ps U t p m qs] date_loop_later [of ps U t p m qs]
      field_loop_later [of ps U t p m qs]
    by blast
  have val: "family \<in> {date_patterns, requirements_patterns, organizer_patterns,
                         undertaker_patterns}
        \<and> first_match U family t = Some v \<longrightarrow> v \<noteq> [] \<and> or_else (Some v) sentinel = v"
  proof
    assume a: "family \<in> {date_patterns, requirements_patterns, organizer_patterns,
                          undertaker_patterns}
               \<and> first_match U family t = Some v"
    then have "\<forall>p \<in> set family. \<exists>a \<in> set p. grp a = 1 \<and> 1 \<le> lo a"
      using date_patterns_groups field_patterns_groups by auto
    from first_match_not_empty [OF this] a have "v \<noteq> []" by blast
    then show "v \<noteq> [] \<and> or_else (Some v) sentinel = v"
      by (simp add: or_else_def)
  qed
  from family_loops [of U t] later val show ?thesis by (intro conjI)
qed

theorem first_match_wins_witness:
  "re_search ascii (labelled [20027, 21150])
       [20027, 21150, 26041, 58, 67, 10, 20027, 21150, 21333, 20301, 58, 66] = None
   \<and> re_search ascii (labelled [20027, 21150, 21333, 20301])
       [20027, 21150, 26041, 58, 67, 10, 20027, 21150, 21333, 20301, 58, 66]
     = Some [[20027], [21150], [21333], [20301], [58], [], [66]]
   \<and> re_search ascii (labelled [20027, 21150, 26041])
       [20027, 21150, 26041, 58, 67, 10, 20027, 21150, 21333, 20301, 58, 66]
     = Some [[20027], [21150], [26041], [58], [], [67]]
   \<and> first_match ascii organizer_patterns
       [20027, 21150, 26041, 58, 67, 10, 20027, 21150, 21333, 20301, 58, 66] = Some [66]
   \<and> field_loop ascii organizer_patterns
       [20027, 21150, 26041, 58, 67, 10, 20027, 21150, 21333, 20301, 58, 66] = Inr (Some [66])"
proof -
  let ?t = "[20027, 21150, 26041, 58, 67, 10, 20027, 21150, 21333, 20301, 58, 66]"
  let ?ps = "[labelled [20027, 21150]]"
  let ?p = "labelled [20027, 21150, 21333, 20301]"
  let ?qs = "[labelled [20027, 21150, 26041]]"
  let ?m = "[[20027], [21150], [21333], [20301], [58], [], [66]]"
  have m1: "re_search ascii (labelled [20027, 21150]) ?t = None"
    by (simp add: labelled_def lit_def once_def star_def plus1_def colon_def run_def ascii_def)
  have m2: "re_search ascii ?p ?t = Some ?m"
    by (simp add: labelled_def lit_def once_def star_def plus1_def colon_def run_def ascii_def)
  have m3: "re_search ascii (labelled [20027, 21150, 26041]) ?t
            = Some [[20027], [21150], [26041], [58], [], [67]]"
    by (simp add: labelled_def lit_def once_def star_def plus1_def colon_def run_def ascii_def)
  have c: "captured ?p ?m = [66]"
    by (simp add: captured_def labelled_def lit_def once_def star_def plus1_def colon_def
          ngroups_def group_def)
  have o: "organizer_patterns = ?ps @ ?p # ?qs"
    by (simp add: organizer_patterns_def)
  have h: "(\<forall>q \<in> set ?ps. re_search ascii q ?t = None) \<and> re_search ascii ?p ?t = Some ?m"
    using m1 m2 by simp
  note t = first_match_wins [of ascii ?t ?ps ?p ?m ?qs organizer_patterns "[66]" no_organizer]
  from t have f: "field_loop ascii organizer_patterns ?t
                  = Inr (first_match ascii organizer_patterns ?t)"
    by blast
  from t h have "first_match ascii (?ps @ ?p # ?qs) ?t = Some (captured ?p ?m)"
    by blast
  then have v: "first_match ascii organizer_patterns ?t = Some [66]"
    unfolding o [symmetric] c .
  from m1 m2 m3 v f show ?thesis by simp
qed

subsection \<open>The four fields\<close>

text \<open>
  C3, as amended. When \<open>parse_news_content\<close> returns a result, each of the four fields
  is there and is the value of its family for the text of the page: the value captured
  by a pattern of the family that matches the text, or the sentinel of the family.
  When anything in its \<open>try\<close> block raises, \<open>parse_news_content\<close> returns \<open>None\<close>, and
  the entry \<open>fetch_news_urls\<close> builds has none of the four fields: in every entry
  returned the four fields go with the content. The counterexample is the entry of a
  relevant item whose detail page cannot be fetched.
\<close>

theorem fields_present_with_content:
  "(parse_news_content w a s = (Inr (Some info), s') \<longrightarrow>
      c_date_info info = field_value (uni w) date_patterns no_date_info (c_content info)
      \<and> c_requirements info
          = field_value (uni w) requirements_patterns no_requirements (c_content info)
      \<and> c_organizer info = field_value (uni w) organizer_patterns no_organizer (c_content info)
      \<and> c_undertaker info
          = field_value (uni w) undertaker_patterns no_undertaker (c_content info))
   \<and> (field_value U family sentinel t = sentinel
        \<or> (\<exists>p \<in> set family. \<exists>m. re_search U p t = Some m
              \<and> field_value U family sentinel t = captured p m))
   \<and> (fst (parse_news_content w a s) = Inr None
        \<longleftrightarrow> (\<exists>e. fst (parse_news_try w a s) = Inl e))
   \<and> (fst (fetch_news_urls w s) = Inr news \<longrightarrow>
        (\<forall>e \<in> set news. fields_follow_content (uni w) e))"
proof (intro conjI impI)
  assume "parse_news_content w a s = (Inr (Some info), s')"
  then have "parse_news_try w a s = (Inr info, s')"
    by (simp add: parse_news_content_Some)
  from parse_news_try_fields [OF this]
  show "c_date_info info = field_value (uni w) date_patterns no_date_info (c_content info)"
    "c_requirements info
       = field_value (uni w) requirements_patterns no_requirements (c_content info)"
    "c_organizer info = field_value (uni w) organizer_patterns no_organizer (c_content info)"
    "c_undertaker info
       = field_value (uni w) undertaker_patterns no_undertaker (c_content info)"
    by simp_all
next
  show "field_value U family sentinel t = sentinel
        \<or> (\<exists>p \<in> set family. \<exists>m. re_search U p t = Some m
              \<and> field_value U family sentinel t = captured p m)"
    by (rule field_value_origin)
next
  show "fst (parse_news_content w a s) = Inr None
        \<longleftrightarrow> (\<exists>e. fst (parse_news_try w a s) = Inl e)"
    by (rule parse_news_content_None)
next
  assume "fst (fetch_news_urls w s) = Inr news"
  with news_item_fields show "\<forall>e \<in> set news. fields_follow_content (uni w) e"
    by (rule fetch_news_urls_all)
qed


theorem fields_present_with_content_witness:
  "parse_news_content site (base_url @ u ''/n1.html'') start
     = (Inr (Some \<lparr>c_content = [10, 20027, 21150, 65306, 65, 10, 66],
                    c_date_info = no_date_info, c_requirements = no_requirements,
                    c_organizer = [65], c_undertaker = no_undertaker\<rparr>),
        start\<lparr>requested := requested start @ [base_url @ u ''/n1.html'',
          base_url @ u ''/a.png'', base_url @ u ''/b.png'', u ''http://c/c.png'']\<rparr>)
   \<and> field_value ascii organizer_patterns no_organizer [10, 20027, 21150, 65306, 65, 10, 66]
     = [65]
   \<and> field_value ascii date_patterns no_date_info [10, 20027, 21150, 65306, 65, 10, 66]
     = no_date_info
   \<and> fst (fetch_news_urls site start) = Inr [site_entry1, site_entry3, site_entry4]
   \<and> fields_follow_content ascii site_entry1
   \<and> fields_follow_content ascii site_entry4
   \<and> content site_entry4 = None \<and> date_info site_entry4 = None"
proof -
  let ?info = "\<lparr>c_content = [10, 20027, 21150, 65306, 65, 10, 66],
                 c_date_info = no_date_info, c_requirements = no_requirements,
                 c_organizer = [65], c_undertaker = no_undertaker\<rparr>"
  let ?s' = "start\<lparr>requested := requested start @ [base_url @ u ''/n1.html'',
          base_url @ u ''/a.png'', base_url @ u ''/b.png'', u ''http://c/c.png'']\<rparr>"
  have h1: "parse_news_content site (base_url @ u ''/n1.html'') start = (Inr (Some ?info), ?s')"
    by (rule site_page)
  have h2: "fst (fetch_news_urls site start) = Inr [site_entry1, site_entry3, site_entry4]"
    by (simp add: site_fetch)
  have un: "uni site = ascii"
    by (simp add: site_def)
  note t = fields_present_with_content [of site "base_url @ u ''/n1.html''" start ?info ?s'
      ascii organizer_patterns no_organizer "[]" "[site_entry1, site_entry3, site_entry4]"]
  from t h1 have v: "c_date_info ?info
                     = field_value (uni site) date_patterns no_date_info (c_content ?info)"
    "c_organizer ?info
     = field_value (uni site) organizer_patterns no_organizer (c_content ?info)"
    by blast+
  from t h2
  have f: "\<forall>e \<in> set [site_entry1, site_entry3, site_entry4]. fields_follow_content (uni site) e"
    by blast
  have b: "content site_entry4 = None" "date_info site_entry4 = None"
    by (simp_all add: site_entry4_def bare_def)
  from h1 h2 v f b show ?thesis
    by (simp add: un)
qed

theorem fields_absent_counterexample:
  "fst (parse_news_content lonely (base_url @ u ''/n1.html'')
          (start\<lparr>requested := [base_url @ u ''/home/newss.html'']\<rparr>)) = Inr None
   \<and> fst (fetch_news_urls lonely start)
     = Inr [bare 1 [27604, 36187] [] (base_url @ u ''/n1.html'') True]
   \<and> date_info (bare 1 [27604, 36187] [] (base_url @ u ''/n1.html'') True) = None
   \<and> requirements (bare 1 [27604, 36187] [] (base_url @ u ''/n1.html'') True) = None
   \<and> organizer (bare 1 [27604, 36187] [] (base_url @ u ''/n1.html'') True) = None
   \<and> undertaker (bare 1 [27604, 36187] [] (base_url @ u ''/n1.html'') True) = None"
proof -
  have "fst (parse_news_content lonely (base_url @ u ''/n1.html'')
          (start\<lparr>requested := [base_url @ u ''/home/newss.html'']\<rparr>)) = Inr None"
    by (simp add: parse_news_content_def parse_news_try_def requests_get_def lonely_def
          offline_def start_def)
  then show ?thesis
    by (simp add: lonely_fetch bare_def)
qed

end
